theory Spec2Isabelle
  imports Complex_Main "HOL-Library.Sublist" "HOL-Library.Multiset"
begin

section \<open>Python values the notebooks compute with\<close>

text \<open>
  The notebooks are Python. Every exception the modelled code can raise is a value of
  \<open>error\<close>, and a Python expression that may raise has type \<open>error + 'a\<close>,
  with \<open>Inl\<close> for the exception.
\<close>

datatype error =
    IndexError
  | KeyError
  | ZeroDivisionError
  | ValueError string
  | QiskitFinanceError string

text \<open>
  \<open>seq[i]\<close> on a Python sequence (a list, a string, a register of a circuit): a
  negative index counts from the end, an index out of range raises IndexError.
\<close>

definition py_index :: "'a list \<Rightarrow> int \<Rightarrow> error + 'a" where
  "py_index xs i =
     (if 0 \<le> i \<and> i < int (length xs) then Inr (xs ! nat i)
      else if - int (length xs) \<le> i \<and> i < 0 then Inr (xs ! nat (int (length xs) + i))
      else Inl IndexError)"

text \<open>\<open>range(n)\<close> and \<open>enumerate(xs)\<close>.\<close>

definition py_range :: "int \<Rightarrow> int list" where
  "py_range n = map int [0..<nat n]"

definition py_enumerate :: "'a list \<Rightarrow> (int \<times> 'a) list" where
  "py_enumerate xs = zip (map int [0..<length xs]) xs"

text \<open>\<open>[seq[j] for j in js]\<close>: the first index that raises ends the comprehension.\<close>

fun py_index_all :: "'a list \<Rightarrow> int list \<Rightarrow> error + 'a list" where
  "py_index_all xs [] = Inr []"
| "py_index_all xs (j # js) =
     (case py_index xs j of
        Inl e \<Rightarrow> Inl e
      | Inr a \<Rightarrow> (case py_index_all xs js of Inl e \<Rightarrow> Inl e | Inr as \<Rightarrow> Inr (a # as)))"

section \<open>Circuits\<close>

text \<open>
  The Grover notebook builds one circuit over three quantum registers (the search
  register \<open>circuit_input\<close>, the one-qubit register \<open>circuit_output\<close> and the
  work register \<open>aux\<close>) and one classical register \<open>ans\<close>. A qubit is named by its
  register and its position there; a register is the list of its qubits, which is what
  \<open>QuantumRegister(size)\<close> builds.
\<close>

datatype qubit = Input nat | Output nat | Aux nat

definition input_register :: "nat \<Rightarrow> qubit list" where
  "input_register n = map Input [0..<n]"

definition output_register :: "nat \<Rightarrow> qubit list" where
  "output_register n = map Output [0..<n]"

definition aux_register :: "nat \<Rightarrow> qubit list" where
  "aux_register n = map Aux [0..<n]"

definition classical_register :: "nat \<Rightarrow> nat list" where
  "classical_register n = [0..<n]"

text \<open>
  The gate operations the notebook appends: \<open>circuit.h\<close>, \<open>circuit.x\<close>,
  \<open>circuit.cx\<close>, \<open>circuit.ccx\<close> and \<open>circuit.measure\<close>. A circuit is the
  sequence of operations appended so far.
\<close>

datatype gate =
    H qubit
  | X qubit
  | CX qubit qubit
  | CCX qubit qubit qubit
  | Measure qubit nat

type_synonym circuit = "gate list"

text \<open>
  A statement mutates the circuit it is given and either completes or raises. The
  circuit is a Python object changed in place, so the gates appended before a raise
  stay in it: a statement returns the exception, if any, together with the circuit as
  it then is.
\<close>

type_synonym stmt = "circuit \<Rightarrow> error option \<times> circuit"

definition skip :: stmt where
  "skip c = (None, c)"

definition raise :: "error \<Rightarrow> stmt" where
  "raise e c = (Some e, c)"

definition seq :: "stmt \<Rightarrow> stmt \<Rightarrow> stmt" where
  "seq p q c = (case p c of (None, c') \<Rightarrow> q c' | (Some e, c') \<Rightarrow> (Some e, c'))"

fun block :: "stmt list \<Rightarrow> stmt" where
  "block [] = skip"
| "block (p # ps) = seq p (block ps)"

fun for_each :: "('a \<Rightarrow> stmt) \<Rightarrow> 'a list \<Rightarrow> stmt" where
  "for_each body [] = skip"
| "for_each body (a # as) = seq (body a) (for_each body as)"

text \<open>
  A gate call evaluates its arguments from left to right (each an index into a
  register, which may raise) and then appends the gate.
\<close>

definition circuit_h :: "error + qubit \<Rightarrow> stmt" where
  "circuit_h q c = (case q of Inl e \<Rightarrow> (Some e, c) | Inr a \<Rightarrow> (None, c @ [H a]))"

definition circuit_x :: "error + qubit \<Rightarrow> stmt" where
  "circuit_x q c = (case q of Inl e \<Rightarrow> (Some e, c) | Inr a \<Rightarrow> (None, c @ [X a]))"

definition circuit_cx :: "error + qubit \<Rightarrow> error + qubit \<Rightarrow> stmt" where
  "circuit_cx q t c =
     (case q of Inl e \<Rightarrow> (Some e, c)
      | Inr a \<Rightarrow> (case t of Inl e \<Rightarrow> (Some e, c) | Inr b \<Rightarrow> (None, c @ [CX a b])))"

definition circuit_ccx :: "error + qubit \<Rightarrow> error + qubit \<Rightarrow> error + qubit \<Rightarrow> stmt" where
  "circuit_ccx q r t c =
     (case q of Inl e \<Rightarrow> (Some e, c)
      | Inr a \<Rightarrow>
         (case r of Inl e \<Rightarrow> (Some e, c)
          | Inr b \<Rightarrow> (case t of Inl e \<Rightarrow> (Some e, c) | Inr d \<Rightarrow> (None, c @ [CCX a b d]))))"

definition circuit_measure :: "error + qubit \<Rightarrow> error + nat \<Rightarrow> stmt" where
  "circuit_measure q b c =
     (case q of Inl e \<Rightarrow> (Some e, c)
      | Inr a \<Rightarrow> (case b of Inl e \<Rightarrow> (Some e, c) | Inr d \<Rightarrow> (None, c @ [Measure a d])))"

text \<open>
  A gate called on a whole register, as in \<open>circuit.x(circuit_output)\<close>, is appended
  once for each qubit of the register.
\<close>

definition circuit_x_register :: "qubit list \<Rightarrow> stmt" where
  "circuit_x_register r c = (None, c @ map X r)"

definition circuit_h_register :: "qubit list \<Rightarrow> stmt" where
  "circuit_h_register r c = (None, c @ map H r)"

section \<open>The Grover notebook\<close>

subsection \<open>Step 0: preparing the input\<close>

definition input_state :: "qubit list \<Rightarrow> qubit list \<Rightarrow> int \<Rightarrow> stmt" where
  "input_state circuit_input circuit_output n =
     block [
       for_each (\<lambda>j. circuit_h (py_index circuit_input j)) (py_range n),
       circuit_x_register circuit_output,
       circuit_h_register circuit_output]"

subsection \<open>Step 1: the oracle\<close>

text \<open>The body of the first \<open>for literal in clause\<close> loop.\<close>

definition literal_step :: "qubit list \<Rightarrow> qubit list \<Rightarrow> int \<Rightarrow> int \<Rightarrow> stmt" where
  "literal_step circuit_input aux k literal =
     (if literal > 0 then
        circuit_cx (py_index circuit_input (literal - 1)) (py_index aux k)
      else
        block [
          circuit_x (py_index circuit_input (- literal - 1)),
          circuit_cx (py_index circuit_input (- literal - 1)) (py_index aux k)])"

text \<open>The body of the second \<open>for literal in clause\<close> loop.\<close>

definition literal_restore :: "qubit list \<Rightarrow> int \<Rightarrow> stmt" where
  "literal_restore circuit_input literal =
     (if literal < 0 then circuit_x (py_index circuit_input (- literal - 1)) else skip)"

text \<open>
  The body of \<open>for (k, clause) in enumerate(exactly_1_3_sat_formula)\<close>. The source
  writes this body twice, once in the loop before the clause-count dispatch and once,
  statement for statement the same, in the loop after it.
\<close>

definition clause_step :: "qubit list \<Rightarrow> qubit list \<Rightarrow> int \<Rightarrow> int \<times> int list \<Rightarrow> stmt" where
  "clause_step circuit_input aux num_clauses kc =
     (case kc of (k, clause) \<Rightarrow>
        block [
          for_each (literal_step circuit_input aux k) clause,
          circuit_ccx (py_index circuit_input 0) (py_index circuit_input 1) (py_index aux num_clauses),
          circuit_ccx (py_index circuit_input 2) (py_index aux num_clauses) (py_index aux k),
          circuit_ccx (py_index circuit_input 0) (py_index circuit_input 1) (py_index aux num_clauses),
          for_each (literal_restore circuit_input) clause])"

definition clause_loop :: "qubit list \<Rightarrow> qubit list \<Rightarrow> int list list \<Rightarrow> stmt" where
  "clause_loop circuit_input aux exactly_1_3_sat_formula =
     for_each (clause_step circuit_input aux (int (length exactly_1_3_sat_formula)))
       (py_enumerate exactly_1_3_sat_formula)"

text \<open>The \<open>if\<close>/\<open>elif\<close>/\<open>else\<close> chain on the number of clauses.\<close>

definition clause_dispatch :: "qubit list \<Rightarrow> qubit list \<Rightarrow> int \<Rightarrow> stmt" where
  "clause_dispatch circuit_output aux num_clauses =
     (if num_clauses = 1 then
        circuit_cx (py_index aux 0) (py_index circuit_output 0)
      else if num_clauses = 2 then
        circuit_ccx (py_index aux 0) (py_index aux 1) (py_index circuit_output 0)
      else if num_clauses = 3 then
        block [
          circuit_ccx (py_index aux 0) (py_index aux 1) (py_index aux num_clauses),
          circuit_ccx (py_index aux 2) (py_index aux num_clauses) (py_index circuit_output 0),
          circuit_ccx (py_index aux 0) (py_index aux 1) (py_index aux num_clauses)]
      else
        raise (ValueError ''We only allow at most 3 clauses''))"

text \<open>
  The function \<open>oracle\<close> of the notebook (the name is reserved in Isabelle, hence the
  suffix). The parameter \<open>n\<close> is not used by the body, as in the source.
\<close>

definition oracle_fun ::
  "qubit list \<Rightarrow> qubit list \<Rightarrow> qubit list \<Rightarrow> int \<Rightarrow> int list list \<Rightarrow> stmt" where
  "oracle_fun circuit_input circuit_output aux n exactly_1_3_sat_formula =
     block [
       clause_loop circuit_input aux exactly_1_3_sat_formula,
       clause_dispatch circuit_output aux (int (length exactly_1_3_sat_formula)),
       clause_loop circuit_input aux exactly_1_3_sat_formula]"

subsection \<open>Step 2: the phase amplification\<close>

definition n_controlled_Z :: "qubit list \<Rightarrow> qubit \<Rightarrow> stmt" where
  "n_controlled_Z controls target =
     (if length controls > 2 then
        raise (ValueError ''The controlled Z with more than 2 controls is not implemented'')
      else if length controls = 1 then
        block [
          circuit_h (Inr target),
          circuit_cx (py_index controls 0) (Inr target),
          circuit_h (Inr target)]
      else if length controls = 2 then
        block [
          circuit_h (Inr target),
          circuit_ccx (py_index controls 0) (py_index controls 1) (Inr target),
          circuit_h (Inr target)]
      else skip)"

text \<open>
  The call \<open>n_controlled_Z(circuit, [circuit_input[j] for j in range(n-1)],
  circuit_input[n-1])\<close> evaluates the list of controls, then the target, then calls.
\<close>

definition call_n_controlled_Z :: "qubit list \<Rightarrow> int \<Rightarrow> stmt" where
  "call_n_controlled_Z circuit_input n =
     (case py_index_all circuit_input (py_range (n - 1)) of
        Inl e \<Rightarrow> raise e
      | Inr controls \<Rightarrow>
         (case py_index circuit_input (n - 1) of
            Inl e \<Rightarrow> raise e
          | Inr target \<Rightarrow> n_controlled_Z controls target))"

definition phase_amplification :: "qubit list \<Rightarrow> int \<Rightarrow> stmt" where
  "phase_amplification circuit_input n =
     block [
       for_each (\<lambda>j. circuit_h (py_index circuit_input j)) (py_range n),
       for_each (\<lambda>j. circuit_x (py_index circuit_input j)) (py_range n),
       call_n_controlled_Z circuit_input n,
       for_each (\<lambda>j. circuit_x (py_index circuit_input j)) (py_range n),
       for_each (\<lambda>j. circuit_h (py_index circuit_input j)) (py_range n)]"

subsection \<open>The assembled program\<close>

text \<open>
  The driver cell: \<open>n = 3\<close>, the formula of the notebook, the four registers, an empty
  circuit, then the input state, \<open>T = 3\<close> rounds and the measurements.
\<close>

definition grover :: "error option \<times> circuit" where
  "grover =
     (let n = 3;
          exactly_1_3_sat_formula = [[1, 2, - 3], [- 1, - 2, - 3], [- 1, 2, 3]];
          circuit_input = input_register (nat n);
          circuit_output = output_register 1;
          aux = aux_register (length exactly_1_3_sat_formula + 1);
          ans = classical_register (nat n);
          T = 3
      in block [
           input_state circuit_input circuit_output n,
           for_each (\<lambda>t. block [
               oracle_fun circuit_input circuit_output aux n exactly_1_3_sat_formula,
               phase_amplification circuit_input n])
             (py_range T),
           for_each (\<lambda>j. circuit_measure (py_index circuit_input j) (py_index ans j)) (py_range n)]
         [])"

subsection \<open>The reversible gates on computational-basis states\<close>

text \<open>
  A computational-basis state gives every qubit a bit. On such a state \<open>X\<close> negates its
  qubit, \<open>CX\<close> adds (modulo 2) the control to the target and \<open>CCX\<close> adds the
  conjunction of the two controls to the target; \<open>\<noteq>\<close> on booleans is that addition.
  \<open>H\<close> takes a basis state to a superposition and a measurement leaves the circuit
  model, so neither has a value here: a circuit that contains one runs to \<open>None\<close>.
\<close>

type_synonym basis = "qubit \<Rightarrow> bool"

fun apply_gate :: "gate \<Rightarrow> basis \<Rightarrow> basis option" where
  "apply_gate (X q) s = Some (s(q := \<not> s q))"
| "apply_gate (CX a t) s = Some (s(t := (s t \<noteq> s a)))"
| "apply_gate (CCX a b t) s = Some (s(t := (s t \<noteq> (s a \<and> s b))))"
| "apply_gate (H q) s = None"
| "apply_gate (Measure q b) s = None"

fun run :: "circuit \<Rightarrow> basis \<Rightarrow> basis option" where
  "run [] s = Some s"
| "run (g # gs) s = (case apply_gate g s of None \<Rightarrow> None | Some s' \<Rightarrow> run gs s')"

subsection \<open>Exactly-1 3-SAT, as the notebook states the problem\<close>

text \<open>
  A literal is a signed integer: its absolute value is the 1-based index of a variable,
  a negative sign negates. An assignment gives variable \<open>i\<close> (0-based) the bit
  \<open>v i\<close>. A clause is satisfied when exactly one of its literals is true, a formula
  when every clause is.
\<close>

definition literal_true :: "(nat \<Rightarrow> bool) \<Rightarrow> int \<Rightarrow> bool" where
  "literal_true v literal = (if literal > 0 then v (nat (literal - 1)) else \<not> v (nat (- literal - 1)))"

definition true_literals :: "(nat \<Rightarrow> bool) \<Rightarrow> int list \<Rightarrow> nat" where
  "true_literals v clause = length (filter (literal_true v) clause)"

definition exactly_one :: "(nat \<Rightarrow> bool) \<Rightarrow> int list \<Rightarrow> bool" where
  "exactly_one v clause = (true_literals v clause = 1)"

definition satisfied :: "(nat \<Rightarrow> bool) \<Rightarrow> int list list \<Rightarrow> bool" where
  "satisfied v formula = list_all (exactly_one v) formula"

text \<open>
  A clause over the three variables: three literals, and each of the variables 1, 2, 3
  occurs in exactly one of them.
\<close>

definition clause_over_3 :: "int list \<Rightarrow> bool" where
  "clause_over_3 clause =
     (length clause = 3 \<and> list_all (\<lambda>v. count_list (map abs clause) v = 1) [1, 2, 3])"

text \<open>The input bits of a basis state, as an assignment.\<close>

definition input_bits :: "basis \<Rightarrow> nat \<Rightarrow> bool" where
  "input_bits s i = s (Input i)"

section \<open>The QAOA notebook\<close>

text \<open>
  A networkx graph with integer nodes: \<open>G.nodes()\<close> and \<open>G.edges()\<close>, the latter
  each edge once, as a pair of its end nodes.
\<close>

record graph =
  nodes :: "int list"
  edges :: "(int \<times> int) list"

text \<open>The loop of \<open>maxcut_obj\<close>, with \<open>obj\<close> as it stands before the edges left.\<close>

fun maxcut_loop :: "string \<Rightarrow> (int \<times> int) list \<Rightarrow> int \<Rightarrow> error + int" where
  "maxcut_loop x [] obj = Inr obj"
| "maxcut_loop x ((i, j) # es) obj =
     (case py_index x i of
        Inl e \<Rightarrow> Inl e
      | Inr a \<Rightarrow>
         (case py_index x j of
            Inl e \<Rightarrow> Inl e
          | Inr b \<Rightarrow> maxcut_loop x es (if a \<noteq> b then obj - 1 else obj)))"

definition maxcut_obj :: "string \<Rightarrow> graph \<Rightarrow> error + int" where
  "maxcut_obj x G = maxcut_loop x (edges G) 0"

text \<open>
  \<open>counts.items()\<close> is the list of the dictionary's entries. The loop of
  \<open>compute_expectation\<close> carries \<open>avg\<close> and \<open>sum_count\<close>; \<open>bitstring[::-1]\<close>
  is the reversed string. The loop variable \<open>count\<close> of the source is \<open>cnt\<close> here,
  \<open>count\<close> being a constant of the multiset library.
\<close>

fun expectation_loop ::
  "graph \<Rightarrow> (string \<times> int) list \<Rightarrow> int \<Rightarrow> int \<Rightarrow> error + int \<times> int" where
  "expectation_loop G [] avg sum_count = Inr (avg, sum_count)"
| "expectation_loop G ((bitstring, cnt) # items) avg sum_count =
     (case maxcut_obj (rev bitstring) G of
        Inl e \<Rightarrow> Inl e
      | Inr obj \<Rightarrow> expectation_loop G items (avg + obj * cnt) (sum_count + cnt))"

text \<open>
  \<open>a / b\<close> on Python integers: ZeroDivisionError when \<open>b\<close> is 0, else the quotient.
  Python rounds the quotient to the nearest double; the model keeps it exact.
\<close>

definition py_truediv :: "int \<Rightarrow> int \<Rightarrow> error + rat" where
  "py_truediv a b = (if b = 0 then Inl ZeroDivisionError else Inr (of_int a / of_int b))"

definition compute_expectation :: "(string \<times> int) list \<Rightarrow> graph \<Rightarrow> error + rat" where
  "compute_expectation counts G =
     (case expectation_loop G counts 0 0 of
        Inl e \<Rightarrow> Inl e
      | Inr (avg, sum_count) \<Rightarrow> py_truediv avg sum_count)"

text \<open>
  What the two functions are documented to compute. The cut size of a bitstring: the
  number of edges whose end nodes carry different characters.
\<close>

definition cut_size :: "string \<Rightarrow> graph \<Rightarrow> nat" where
  "cut_size x G = length (filter (\<lambda>(i, j). x ! nat i \<noteq> x ! nat j) (edges G))"

definition indexes_all_nodes :: "string \<Rightarrow> graph \<Rightarrow> bool" where
  "indexes_all_nodes x G = list_all (\<lambda>i. 0 \<le> i \<and> i < int (length x)) (nodes G)"

definition graph_ok :: "graph \<Rightarrow> bool" where
  "graph_ok G = list_all (\<lambda>(i, j). i \<in> set (nodes G) \<and> j \<in> set (nodes G)) (edges G)"

text \<open>
  The count-weighted average of the objective over the entries: all objectives (the
  first that raises, if one does), then the weighted sum over the total count.
\<close>

fun all_values :: "(error + 'a) list \<Rightarrow> error + 'a list" where
  "all_values [] = Inr []"
| "all_values (r # rs) =
     (case r of
        Inl e \<Rightarrow> Inl e
      | Inr a \<Rightarrow> (case all_values rs of Inl e \<Rightarrow> Inl e | Inr as \<Rightarrow> Inr (a # as)))"

definition weighted_average :: "int list \<Rightarrow> int list \<Rightarrow> rat" where
  "weighted_average objs cs =
     of_int (sum_list (map (\<lambda>(obj, c). obj * c) (zip objs cs))) / of_int (sum_list cs)"

section \<open>The HHL notebook\<close>

text \<open>
  \<open>counts[key]\<close> on a dictionary raises KeyError for a missing key. A
  \<open>try\<close>/\<open>except E\<close> gives the handler's value when the body raises \<open>E\<close> and lets
  every other exception through.
\<close>

definition py_getitem :: "(string \<rightharpoonup> nat) \<Rightarrow> string \<Rightarrow> error + nat" where
  "py_getitem counts key = (case counts key of None \<Rightarrow> Inl KeyError | Some v \<Rightarrow> Inr v)"

definition try_except :: "error + 'a \<Rightarrow> error \<Rightarrow> error + 'a \<Rightarrow> error + 'a" where
  "try_except body exc handler =
     (case body of Inl e \<Rightarrow> (if e = exc then handler else Inl e) | Inr v \<Rightarrow> Inr v)"

definition get_psuccess :: "(string \<rightharpoonup> nat) \<Rightarrow> error + rat" where
  "get_psuccess counts =
     (case try_except (py_getitem counts ''11'') KeyError (Inr 0) of
        Inl e \<Rightarrow> Inl e
      | Inr succ_rotation_fail_swap \<Rightarrow>
         (case try_except (py_getitem counts ''01'') KeyError (Inr 0) of
            Inl e \<Rightarrow> Inl e
          | Inr succ_rotation_succ_swap \<Rightarrow>
             (let succ_rotation = succ_rotation_succ_swap + succ_rotation_fail_swap
              in try_except
                   (py_truediv (int succ_rotation_succ_swap) (int succ_rotation))
                   ZeroDivisionError (Inr 0))))"

section \<open>The financial time series notebook\<close>


section \<open>Notions used in the statements and the proofs\<close>

text \<open>
  None of what follows is code of the notebooks. These definitions name the inputs the
  statements are evaluated at, what a statement is documented to compute, and the effect
  of each part of a circuit, so that the theorems can say it.
\<close>

text \<open>The count of a key in a dictionary of counts, a missing key counting 0.\<close>

definition count_of :: "(string \<rightharpoonup> nat) \<Rightarrow> string \<Rightarrow> nat" where
  "count_of counts key = (case counts key of None \<Rightarrow> 0 | Some v \<Rightarrow> v)"

text \<open>
  The indices Python accepts for a sequence, and the item each of them reads.
\<close>

definition valid_index :: "'a list \<Rightarrow> int \<Rightarrow> bool" where
  "valid_index xs i = (- int (length xs) \<le> i \<and> i < int (length xs))"

definition item_at :: "'a list \<Rightarrow> int \<Rightarrow> 'a" where
  "item_at xs i = xs ! nat (if i < 0 then int (length xs) + i else i)"

text \<open>The graph of the QAOA notebook: four nodes on a cycle.\<close>

definition square_graph :: graph where
  "square_graph = \<lparr>nodes = [0, 1, 2, 3], edges = [(0, 1), (1, 2), (2, 3), (3, 0)]\<rparr>"

text \<open>
  The basis state that holds the given bits in the three registers (a qubit past the
  end of its list is 0).
\<close>

definition basis_of :: "bool list \<Rightarrow> bool list \<Rightarrow> bool list \<Rightarrow> basis" where
  "basis_of ins outs auxs q =
     (case q of
        Input i \<Rightarrow> i < length ins \<and> ins ! i
      | Output i \<Rightarrow> i < length outs \<and> outs ! i
      | Aux k \<Rightarrow> k < length auxs \<and> auxs ! k)"

text \<open>
  A statement appends: on every circuit it returns the same exception, if any, and
  extends the circuit by the same gates. \<open>ok\<close> says that it returns normally and
  \<open>gates\<close> names the gates it appends.
\<close>

definition appends :: "stmt \<Rightarrow> bool" where
  "appends p = (\<forall>c. p c = (fst (p []), c @ snd (p [])))"

definition ok :: "stmt \<Rightarrow> bool" where
  "ok p = (fst (p []) = None)"

definition gates :: "stmt \<Rightarrow> circuit" where
  "gates p = snd (p [])"

text \<open>
  The 0-based variable of a non-zero literal; which input bits a clause has negated an
  odd number of times; the state with those bits flipped.
\<close>

definition variable :: "int \<Rightarrow> nat" where
  "variable literal = nat (\<bar>literal\<bar> - 1)"

definition negated :: "int list \<Rightarrow> nat \<Rightarrow> bool" where
  "negated clause i = odd (length (filter (\<lambda>l. l < 0 \<and> variable l = i) clause))"

definition flip_negatives :: "int list \<Rightarrow> basis \<Rightarrow> basis" where
  "flip_negatives clause s = (\<lambda>q. case q of Input i \<Rightarrow> (s q \<noteq> negated clause i) | _ \<Rightarrow> s q)"

text \<open>
  What the first loop over a clause adds to \<open>aux[k]\<close>: each literal adds the bit of its
  variable as it then is, a negative literal having flipped it first.
\<close>

fun parity_added :: "int list \<Rightarrow> basis \<Rightarrow> bool" where
  "parity_added [] s = False"
| "parity_added (l # ls) s =
     (if l > 0 then (s (Input (variable l)) \<noteq> parity_added ls s)
      else ((\<not> s (Input (variable l))) \<noteq>
              parity_added ls (s(Input (variable l) := \<not> s (Input (variable l))))))"

text \<open>
  What one round of the loop over the clauses adds to \<open>aux[k]\<close>: the parity of the
  first loop, and through the three Toffoli gates the conjunction of the three input
  bits as flipped (when the ancilla \<open>aux[num_clauses]\<close> holds 0).
\<close>

definition clause_delta :: "nat \<Rightarrow> int list \<Rightarrow> basis \<Rightarrow> bool" where
  "clause_delta nc clause s =
     (let t = flip_negatives clause s
      in (parity_added clause s \<noteq> (t (Input 2) \<and> (s (Aux nc) \<noteq> (t (Input 0) \<and> t (Input 1))))))"

definition same_inputs :: "basis \<Rightarrow> basis \<Rightarrow> bool" where
  "same_inputs s t = (\<forall>i. s (Input i) = t (Input i))"

text \<open>
  The gates of the oracle, for literals that are not 0 and registers that hold every
  qubit indexed.
\<close>

definition literal_gates :: "nat \<Rightarrow> int \<Rightarrow> circuit" where
  "literal_gates k l =
     (if l > 0 then [CX (Input (variable l)) (Aux k)]
      else [X (Input (variable l)), CX (Input (variable l)) (Aux k)])"

definition restore_gates :: "int \<Rightarrow> circuit" where
  "restore_gates l = (if l < 0 then [X (Input (variable l))] else [])"

definition clause_gates :: "nat \<Rightarrow> nat \<Rightarrow> int list \<Rightarrow> circuit" where
  "clause_gates nc k clause =
     concat (map (literal_gates k) clause) @
     [CCX (Input 0) (Input 1) (Aux nc), CCX (Input 2) (Aux nc) (Aux k),
      CCX (Input 0) (Input 1) (Aux nc)] @
     concat (map restore_gates clause)"

text \<open>
  The registers hold every qubit the round for clause \<open>k\<close> indexes: an input
  register of \<open>n\<close> qubits, a work register of \<open>m\<close> qubits.
\<close>

definition fits :: "nat \<Rightarrow> nat \<Rightarrow> nat \<Rightarrow> nat \<Rightarrow> int list \<Rightarrow> bool" where
  "fits n m nc k clause =
     (3 \<le> n \<and> nc < m \<and> k < m \<and> (\<forall>l \<in> set clause. l \<noteq> 0 \<and> \<bar>l\<bar> \<le> int n))"

definition pass_gates :: "nat \<Rightarrow> nat \<Rightarrow> int list list \<Rightarrow> circuit" where
  "pass_gates nc k0 F = concat (map (\<lambda>(k, clause). clause_gates nc k clause) (enumerate k0 F))"

definition after_pass :: "nat \<Rightarrow> nat \<Rightarrow> int list list \<Rightarrow> basis \<Rightarrow> basis" where
  "after_pass nc k0 F s =
     (\<lambda>q. case q of
        Aux j \<Rightarrow> if k0 \<le> j \<and> j < k0 + length F then (s q \<noteq> clause_delta nc (F ! (j - k0)) s) else s q
      | _ \<Rightarrow> s q)"

definition dispatch_gates :: "nat \<Rightarrow> circuit" where
  "dispatch_gates nc =
     (if nc = 1 then [CX (Aux 0) (Output 0)]
      else if nc = 2 then [CCX (Aux 0) (Aux 1) (Output 0)]
      else [CCX (Aux 0) (Aux 1) (Aux 3), CCX (Aux 2) (Aux 3) (Output 0), CCX (Aux 0) (Aux 1) (Aux 3)])"

definition dispatch_delta :: "nat \<Rightarrow> basis \<Rightarrow> bool" where
  "dispatch_delta nc s =
     (if nc = 1 then s (Aux 0)
      else if nc = 2 then s (Aux 0) \<and> s (Aux 1)
      else s (Aux 2) \<and> (s (Aux 3) \<noteq> (s (Aux 0) \<and> s (Aux 1))))"

definition oracle_gates :: "int list list \<Rightarrow> circuit" where
  "oracle_gates F =
     pass_gates (length F) 0 F @ dispatch_gates (length F) @ pass_gates (length F) 0 F"

definition formula_fits :: "nat \<Rightarrow> nat \<Rightarrow> nat \<Rightarrow> int list list \<Rightarrow> bool" where
  "formula_fits n n_out m F =
     (length F \<in> {1, 2, 3} \<and> 0 < n_out \<and> (\<forall>k < length F. fits n m (length F) k (F ! k)))"

section \<open>The objective of Max-Cut and the success probability\<close>

lemma py_index_valid: "py_index xs i = (if valid_index xs i then Inr (item_at xs i) else Inl IndexError)"
  by (auto simp: py_index_def valid_index_def item_at_def Let_def)

lemma maxcut_loop_closed:
  "maxcut_loop x es obj =
     (if list_all (\<lambda>(i, j). valid_index x i \<and> valid_index x j) es
      then Inr (obj - int (length (filter (\<lambda>(i, j). item_at x i \<noteq> item_at x j) es)))
      else Inl IndexError)"
proof (induction es arbitrary: obj)
  case Nil
  show ?case by simp
next
  case (Cons e es)
  obtain i j where e: "e = (i, j)" by (cases e)
  show ?case
  proof (cases "valid_index x i \<and> valid_index x j")
    case True
    then show ?thesis by (simp add: e py_index_valid Cons.IH)
  next
    case False
    then show ?thesis by (auto simp: e py_index_valid)
  qed
qed

lemma maxcut_obj_negated_cut:
  assumes "indexes_all_nodes x G" and "graph_ok G"
  shows "maxcut_obj x G = Inr (- int (cut_size x G))"
proof -
  have v: "valid_index x i \<and> item_at x i = x ! nat i" if "i \<in> set (nodes G)" for i
    using assms(1) that by (auto simp: indexes_all_nodes_def list_all_iff valid_index_def item_at_def)
  have e: "i \<in> set (nodes G) \<and> j \<in> set (nodes G)" if "(i, j) \<in> set (edges G)" for i j
    using assms(2) that by (auto simp: graph_ok_def list_all_iff)
  have a: "list_all (\<lambda>(i, j). valid_index x i \<and> valid_index x j) (edges G)"
    using v e by (auto simp: list_all_iff)
  have b: "filter (\<lambda>(i, j). item_at x i \<noteq> item_at x j) (edges G) =
           filter (\<lambda>(i, j). x ! nat i \<noteq> x ! nat j) (edges G)"
    using v e by (intro filter_cong) auto
  show ?thesis
    by (simp add: maxcut_obj_def maxcut_loop_closed a b cut_size_def)
qed

lemma expectation_loop_closed:
  "expectation_loop G items avg sum_count =
     (case all_values (map (\<lambda>(bitstring, cnt). maxcut_obj (rev bitstring) G) items) of
        Inl e \<Rightarrow> Inl e
      | Inr objs \<Rightarrow>
          Inr (avg + sum_list (map (\<lambda>(obj, c). obj * c) (zip objs (map snd items))),
               sum_count + sum_list (map snd items)))"
  by (induction items arbitrary: avg sum_count) (auto split: sum.splits simp: algebra_simps)

lemma get_psuccess_closed:
  "get_psuccess counts =
     Inr (if count_of counts ''01'' + count_of counts ''11'' = 0 then 0
          else of_nat (count_of counts ''01'') /
               of_nat (count_of counts ''01'' + count_of counts ''11''))"
  by (auto simp: get_psuccess_def try_except_def py_getitem_def py_truediv_def count_of_def
      Let_def split: option.splits)

section \<open>Statements only append\<close>

lemma appendsI: "(\<And>c. p c = (r, c @ gs)) \<Longrightarrow> appends p"
proof -
  assume a: "\<And>c. p c = (r, c @ gs)"
  have "p [] = (r, gs)" using a [of "[]"] by simp
  then have "fst (p []) = r" and "snd (p []) = gs" by simp_all
  then show ?thesis unfolding appends_def using a by blast
qed

lemma appendsD: "appends p \<Longrightarrow> p c = (fst (p []), c @ snd (p []))"
  unfolding appends_def by blast

lemma appends_skip: "appends skip"
  by (rule appendsI [of _ None "[]"]) (simp add: skip_def)

lemma appends_raise: "appends (raise e)"
  by (rule appendsI [of _ "Some e" "[]"]) (simp add: raise_def)

lemma appends_circuit_h: "appends (circuit_h q)"
  by (cases q) (auto intro: appendsI simp: circuit_h_def)

lemma appends_circuit_x: "appends (circuit_x q)"
  by (cases q) (auto intro: appendsI simp: circuit_x_def)

lemma appends_circuit_cx: "appends (circuit_cx q t)"
  by (cases q; cases t) (auto intro: appendsI simp: circuit_cx_def)

lemma appends_circuit_ccx: "appends (circuit_ccx q r t)"
  by (cases q; cases r; cases t) (auto intro: appendsI simp: circuit_ccx_def)

lemma appends_circuit_measure: "appends (circuit_measure q b)"
  by (cases q; cases b) (auto intro: appendsI simp: circuit_measure_def)

lemma appends_x_register: "appends (circuit_x_register r)"
  by (rule appendsI [of _ None "map X r"]) (simp add: circuit_x_register_def)

lemma appends_h_register: "appends (circuit_h_register r)"
  by (rule appendsI [of _ None "map H r"]) (simp add: circuit_h_register_def)

lemma seq_result:
  assumes "appends p" and "appends q"
  shows "seq p q c =
    (case fst (p []) of None \<Rightarrow> (fst (q []), c @ snd (p []) @ snd (q []))
     | Some e \<Rightarrow> (Some e, c @ snd (p [])))"
proof -
  have p: "p c = (fst (p []), c @ snd (p []))" using assms(1) by (rule appendsD)
  have q: "q (c @ snd (p [])) = (fst (q []), (c @ snd (p [])) @ snd (q []))"
    using assms(2) by (rule appendsD)
  show ?thesis
    by (cases "fst (p [])") (simp_all add: seq_def p q)
qed

lemma appends_seq: "appends p \<Longrightarrow> appends q \<Longrightarrow> appends (seq p q)"
  by (cases "fst (p [])") (auto intro: appendsI simp: seq_result)

lemma appends_block: "(\<And>p. p \<in> set ps \<Longrightarrow> appends p) \<Longrightarrow> appends (block ps)"
  by (induction ps) (simp_all add: appends_skip appends_seq)

lemma appends_for_each: "(\<And>a. a \<in> set as \<Longrightarrow> appends (body a)) \<Longrightarrow> appends (for_each body as)"
  by (induction as) (simp_all add: appends_skip appends_seq)

lemmas appends_basic =
  appends_skip appends_raise appends_circuit_h appends_circuit_x appends_circuit_cx
  appends_circuit_ccx appends_circuit_measure appends_x_register appends_h_register
  appends_seq appends_for_each

lemma appends_input_state: "appends (input_state circuit_input circuit_output n)"
  by (simp add: input_state_def appends_basic)

lemma appends_literal_step: "appends (literal_step circuit_input aux k literal)"
  by (simp add: literal_step_def appends_basic)

lemma appends_literal_restore: "appends (literal_restore circuit_input literal)"
  by (simp add: literal_restore_def appends_basic)

lemma appends_clause_step: "appends (clause_step circuit_input aux num_clauses kc)"
  by (cases kc) (simp add: clause_step_def appends_basic appends_literal_step appends_literal_restore)

lemma appends_clause_loop: "appends (clause_loop circuit_input aux F)"
  by (simp add: clause_loop_def appends_for_each appends_clause_step)

lemma appends_clause_dispatch: "appends (clause_dispatch circuit_output aux num_clauses)"
  by (simp add: clause_dispatch_def appends_basic)

lemma appends_oracle: "appends (oracle_fun circuit_input circuit_output aux n F)"
  by (simp add: oracle_fun_def appends_basic appends_clause_loop appends_clause_dispatch)

lemma appends_n_controlled_Z: "appends (n_controlled_Z controls target)"
  by (simp add: n_controlled_Z_def appends_basic)

lemma appends_call_n_controlled_Z: "appends (call_n_controlled_Z circuit_input n)"
  by (simp add: call_n_controlled_Z_def appends_n_controlled_Z appends_raise split: sum.splits)

lemma appends_phase_amplification: "appends (phase_amplification circuit_input n)"
  by (simp add: phase_amplification_def appends_basic appends_call_n_controlled_Z)

lemma appends_prefix: "appends p \<Longrightarrow> prefix c (snd (p c))"
  by (simp add: appendsD [of p c])

section \<open>Returning normally, and the gates appended\<close>

lemma appends_result: "appends p \<Longrightarrow> p c = (fst (p []), c @ gates p)"
  unfolding gates_def by (rule appendsD)

lemma ok_result: "appends p \<Longrightarrow> ok p \<Longrightarrow> p c = (None, c @ gates p)"
  using appends_result [of p c] by (simp add: ok_def)

lemma ok_iff: "appends p \<Longrightarrow> ok p = (fst (p c) = None)"
  using appends_result [of p c] by (simp add: ok_def)

lemma ok_seq: "appends p \<Longrightarrow> appends q \<Longrightarrow> ok (seq p q) = (ok p \<and> ok q)"
  by (cases "fst (p [])") (simp_all add: ok_def seq_result)

lemma gates_seq: "appends p \<Longrightarrow> appends q \<Longrightarrow> ok p \<Longrightarrow> gates (seq p q) = gates p @ gates q"
  by (simp add: ok_def gates_def seq_result)

lemma ok_skip: "ok skip" and gates_skip: "gates skip = []"
  by (simp_all add: ok_def gates_def skip_def)

lemma ok_for_each:
  "(\<And>a. appends (body a)) \<Longrightarrow> ok (for_each body as) = (\<forall>a \<in> set as. ok (body a))"
  by (induction as) (simp_all add: ok_skip ok_seq appends_for_each)

lemma gates_for_each:
  "(\<And>a. appends (body a)) \<Longrightarrow> ok (for_each body as) \<Longrightarrow>
   gates (for_each body as) = concat (map (\<lambda>a. gates (body a)) as)"
  by (induction as) (simp_all add: gates_skip ok_seq gates_seq appends_for_each)

lemma run_append:
  "run (gs @ hs) s = (case run gs s of None \<Rightarrow> None | Some s' \<Rightarrow> run hs s')"
  by (induction gs arbitrary: s) (simp_all split: option.splits)

lemma py_index_input:
  "py_index (input_register n) i =
     (if 0 \<le> i \<and> i < int n then Inr (Input (nat i))
      else if - int n \<le> i \<and> i < 0 then Inr (Input (nat (int n + i)))
      else Inl IndexError)"
  by (auto simp: py_index_def input_register_def Let_def)

lemma py_index_aux:
  "py_index (aux_register n) i =
     (if 0 \<le> i \<and> i < int n then Inr (Aux (nat i))
      else if - int n \<le> i \<and> i < 0 then Inr (Aux (nat (int n + i)))
      else Inl IndexError)"
  by (auto simp: py_index_def aux_register_def Let_def)

lemma py_index_output:
  "py_index (output_register n) i =
     (if 0 \<le> i \<and> i < int n then Inr (Output (nat i))
      else if - int n \<le> i \<and> i < 0 then Inr (Output (nat (int n + i)))
      else Inl IndexError)"
  by (auto simp: py_index_def output_register_def Let_def)

lemma ok_circuit_x: "ok (circuit_x q) = (\<exists>a. q = Inr a)"
  by (cases q) (simp_all add: ok_def circuit_x_def)

lemma ok_circuit_cx: "ok (circuit_cx q t) = ((\<exists>a. q = Inr a) \<and> (\<exists>b. t = Inr b))"
  by (cases q; cases t) (simp_all add: ok_def circuit_cx_def)

lemma ok_circuit_ccx:
  "ok (circuit_ccx q r t) = ((\<exists>a. q = Inr a) \<and> (\<exists>b. r = Inr b) \<and> (\<exists>d. t = Inr d))"
  by (cases q; cases r; cases t) (simp_all add: ok_def circuit_ccx_def)

lemma gates_circuit_x: "gates (circuit_x (Inr a)) = [X a]"
  by (simp add: gates_def circuit_x_def)

lemma gates_circuit_cx: "gates (circuit_cx (Inr a) (Inr b)) = [CX a b]"
  by (simp add: gates_def circuit_cx_def)

lemma gates_circuit_ccx: "gates (circuit_ccx (Inr a) (Inr b) (Inr d)) = [CCX a b d]"
  by (simp add: gates_def circuit_ccx_def)

section \<open>One round of the oracle's loop over the clauses\<close>

lemma same_inputs_upd:
  "same_inputs s t \<Longrightarrow> same_inputs (s(Input i := \<not> s (Input i))) (t(Input i := \<not> t (Input i)))"
  by (simp add: same_inputs_def)

lemma parity_added_cong: "same_inputs s t \<Longrightarrow> parity_added ls s = parity_added ls t"
proof (induction ls arbitrary: s t)
  case Nil
  show ?case by simp
next
  case (Cons l ls)
  let ?j = "Input (variable l)"
  have a: "s ?j = t ?j"
    using Cons.prems by (simp add: same_inputs_def)
  have b: "parity_added ls s = parity_added ls t"
    using Cons.prems by (rule Cons.IH)
  have "parity_added ls (s(?j := \<not> s ?j)) = parity_added ls (t(?j := \<not> t ?j))"
    using Cons.prems by (intro Cons.IH same_inputs_upd)
  then have c: "parity_added ls (s(?j := \<not> t ?j)) = parity_added ls (t(?j := \<not> t ?j))"
    by (simp only: a)
  show ?case by (simp add: a b c)
qed

lemma flip_negatives_Nil: "flip_negatives [] s = s"
  by (rule ext) (simp add: flip_negatives_def negated_def split: qubit.splits)

lemma flip_negatives_pos: "0 \<le> l \<Longrightarrow> flip_negatives (l # ls) s = flip_negatives ls s"
  by (rule ext) (simp add: flip_negatives_def negated_def split: qubit.splits)

lemma flip_negatives_neg:
  "l < 0 \<Longrightarrow> flip_negatives (l # ls) s =
     flip_negatives ls (s(Input (variable l) := \<not> s (Input (variable l))))"
  by (rule ext) (auto simp: flip_negatives_def negated_def split: qubit.splits)

lemma flip_negatives_aux: "flip_negatives ls (s(Aux k := b)) = (flip_negatives ls s)(Aux k := b)"
  by (rule ext) (simp add: flip_negatives_def split: qubit.splits)

lemma flip_negatives_twice: "flip_negatives ls (flip_negatives ls s) = s"
  by (rule ext) (auto simp: flip_negatives_def split: qubit.splits)

lemma run_restore_gates_neg:
  "l < 0 \<Longrightarrow> run (restore_gates l @ gs) s = run gs (s(Input (variable l) := \<not> s (Input (variable l))))"
  by (simp add: restore_gates_def)

lemma run_restore_gates_pos: "\<not> l < 0 \<Longrightarrow> run (restore_gates l @ gs) s = run gs s"
  by (simp add: restore_gates_def)

lemma run_literal_gates_pos:
  "l > 0 \<Longrightarrow> run (literal_gates k l @ gs) s =
     run gs (s(Aux k := (s (Aux k) \<noteq> s (Input (variable l)))))"
  by (simp add: literal_gates_def)

lemma run_literal_gates_neg:
  "\<not> l > 0 \<Longrightarrow> run (literal_gates k l @ gs) s =
     run gs ((s(Input (variable l) := \<not> s (Input (variable l))))
                  (Aux k := (s (Aux k) \<noteq> (\<not> s (Input (variable l))))))"
  by (simp add: literal_gates_def)

lemma run_restore: "run (concat (map restore_gates ls)) s = Some (flip_negatives ls s)"
proof (induction ls arbitrary: s)
  case Nil
  show ?case by (simp add: flip_negatives_Nil)
next
  case (Cons l ls)
  show ?case
    by (cases "l < 0")
      (simp_all add: run_restore_gates_neg run_restore_gates_pos Cons.IH flip_negatives_neg flip_negatives_pos fun_upd_def)
qed

lemma run_literals:
  "0 \<notin> set ls \<Longrightarrow>
   run (concat (map (literal_gates k) ls)) s =
     Some ((flip_negatives ls s)(Aux k := (s (Aux k) \<noteq> parity_added ls s)))"
proof (induction ls arbitrary: s)
  case Nil
  show ?case by (simp add: flip_negatives_Nil)
next
  case (Cons l ls)
  have IH: "run (concat (map (literal_gates k) ls)) s' =
     Some ((flip_negatives ls s')(Aux k := (s' (Aux k) \<noteq> parity_added ls s')))" for s'
    using Cons.prems by (intro Cons.IH) simp
  show ?case
  proof (cases "l > 0")
    case True
    have c: "parity_added ls (s(Aux k := b)) = parity_added ls s" for b
      by (rule parity_added_cong) (simp add: same_inputs_def)
    show ?thesis using True
      by (simp add: run_literal_gates_pos IH flip_negatives_pos flip_negatives_aux c) (auto simp: fun_upd_def)
  next
    case False
    let ?j = "Input (variable l)"
    let ?s1 = "s(?j := \<not> s ?j)"
    have c: "parity_added ls (?s1(Aux k := b)) = parity_added ls ?s1" for b
      by (rule parity_added_cong) (simp add: same_inputs_def)
    from False Cons.prems have neg: "l < 0" by auto
    then show ?thesis
      by (simp add: run_literal_gates_neg IH flip_negatives_neg flip_negatives_aux c) (auto simp: fun_upd_def)
  qed
qed

lemma run_toffolis:
  assumes "k \<noteq> nc"
  shows "run [CCX (Input 0) (Input 1) (Aux nc), CCX (Input 2) (Aux nc) (Aux k),
               CCX (Input 0) (Input 1) (Aux nc)] u =
         Some (u(Aux k := (u (Aux k) \<noteq> (u (Input 2) \<and> (u (Aux nc) \<noteq> (u (Input 0) \<and> u (Input 1)))))))"
proof -
  let ?a = "u (Aux nc) \<noteq> (u (Input 0) \<and> u (Input 1))"
  let ?v = "u (Aux k) \<noteq> (u (Input 2) \<and> ?a)"
  let ?u1 = "u(Aux nc := ?a)"
  let ?u2 = "?u1(Aux k := (?u1 (Aux k) \<noteq> (?u1 (Input 2) \<and> ?u1 (Aux nc))))"
  let ?u3 = "?u2(Aux nc := (?u2 (Aux nc) \<noteq> (?u2 (Input 0) \<and> ?u2 (Input 1))))"
  have "run [CCX (Input 0) (Input 1) (Aux nc), CCX (Input 2) (Aux nc) (Aux k),
               CCX (Input 0) (Input 1) (Aux nc)] u = Some ?u3"
    by (simp only: run.simps apply_gate.simps option.case)
  moreover have "?u3 = u(Aux k := ?v)"
  proof (rule ext)
    fix q
    show "?u3 q = (u(Aux k := ?v)) q"
      using assms by (cases "q = Aux k"; cases "q = Aux nc") auto
  qed
  ultimately show ?thesis by (simp only:)
qed

lemma run_clause_gates:
  assumes "k \<noteq> nc" and "0 \<notin> set clause"
  shows "run (clause_gates nc k clause) s =
         Some (s(Aux k := (s (Aux k) \<noteq> clause_delta nc clause s)))"
proof -
  let ?t = "flip_negatives clause s"
  let ?t1 = "?t(Aux k := (s (Aux k) \<noteq> parity_added clause s))"
  let ?w = "?t1 (Aux k) \<noteq> (?t1 (Input 2) \<and> (?t1 (Aux nc) \<noteq> (?t1 (Input 0) \<and> ?t1 (Input 1))))"
  have anc: "?t (Aux nc) = s (Aux nc)"
    by (simp add: flip_negatives_def)
  have w: "?w = (s (Aux k) \<noteq> clause_delta nc clause s)"
    using assms(1) by (auto simp: clause_delta_def Let_def anc)
  have "run (clause_gates nc k clause) s = Some (flip_negatives clause (?t1(Aux k := ?w)))"
    unfolding clause_gates_def
    by (simp only: run_append run_literals [OF assms(2)] option.case run_toffolis [OF assms(1)]
        run_restore)
  also have "flip_negatives clause (?t1(Aux k := ?w)) = s(Aux k := ?w)"
    by (simp add: flip_negatives_aux flip_negatives_twice)
  finally show ?thesis by (simp only: w)
qed

lemma ok_literal_step:
  "l \<noteq> 0 \<Longrightarrow>
   ok (literal_step (input_register n) (aux_register m) (int k) l) = (\<bar>l\<bar> \<le> int n \<and> k < m)"
  by (auto simp: literal_step_def ok_seq ok_skip appends_basic ok_circuit_x ok_circuit_cx
      py_index_input py_index_aux)

lemma gates_literal_step:
  "l \<noteq> 0 \<Longrightarrow> \<bar>l\<bar> \<le> int n \<Longrightarrow> k < m \<Longrightarrow>
   gates (literal_step (input_register n) (aux_register m) (int k) l) = literal_gates k l"
  by (auto simp: literal_step_def literal_gates_def variable_def gates_seq gates_skip
      appends_basic ok_circuit_x ok_circuit_cx gates_circuit_x gates_circuit_cx
      py_index_input py_index_aux)

lemma ok_literal_restore:
  "l \<noteq> 0 \<Longrightarrow> \<bar>l\<bar> \<le> int n \<Longrightarrow> ok (literal_restore (input_register n) l)"
  by (auto simp: literal_restore_def ok_skip ok_circuit_x py_index_input)

lemma gates_literal_restore:
  "l \<noteq> 0 \<Longrightarrow> \<bar>l\<bar> \<le> int n \<Longrightarrow> gates (literal_restore (input_register n) l) = restore_gates l"
  by (auto simp: literal_restore_def restore_gates_def variable_def gates_skip gates_circuit_x
      py_index_input)

lemma ok_literal_loop:
  assumes "\<forall>l \<in> set clause. l \<noteq> 0"
  shows "ok (for_each (literal_step (input_register n) (aux_register m) (int k)) clause) =
         (\<forall>l \<in> set clause. \<bar>l\<bar> \<le> int n \<and> k < m)"
  using assms by (simp add: ok_for_each appends_literal_step ok_literal_step)

lemma gates_literal_loop:
  assumes "\<forall>l \<in> set clause. l \<noteq> 0 \<and> \<bar>l\<bar> \<le> int n" and "k < m"
  shows "gates (for_each (literal_step (input_register n) (aux_register m) (int k)) clause) =
         concat (map (literal_gates k) clause)"
proof -
  have "ok (for_each (literal_step (input_register n) (aux_register m) (int k)) clause)"
    using assms by (simp add: ok_for_each appends_literal_step ok_literal_step)
  then show ?thesis
    using assms by (simp add: gates_for_each appends_literal_step gates_literal_step cong: map_cong)
qed

lemma ok_restore_loop:
  assumes "\<forall>l \<in> set clause. l \<noteq> 0 \<and> \<bar>l\<bar> \<le> int n"
  shows "ok (for_each (literal_restore (input_register n)) clause)"
  using assms by (simp add: ok_for_each appends_literal_restore ok_literal_restore)

lemma gates_restore_loop:
  assumes "\<forall>l \<in> set clause. l \<noteq> 0 \<and> \<bar>l\<bar> \<le> int n"
  shows "gates (for_each (literal_restore (input_register n)) clause) =
         concat (map restore_gates clause)"
  using assms ok_restore_loop [OF assms]
  by (simp add: gates_for_each appends_literal_restore gates_literal_restore cong: map_cong)

lemma ok_clause_step_fits:
  assumes "ok (clause_step (input_register n) (aux_register m) (int nc) (int k, clause))"
    and "\<forall>l \<in> set clause. l \<noteq> 0"
  shows "fits n m nc k clause"
proof -
  have a: "ok (for_each (literal_step (input_register n) (aux_register m) (int k)) clause)"
   and b: "ok (circuit_ccx (py_index (input_register n) 2) (py_index (aux_register m) (int nc))
                (py_index (aux_register m) (int k)))"
    using assms(1)
    by (simp_all add: clause_step_def ok_seq appends_basic appends_literal_step
        appends_literal_restore)
  from a assms(2) have c: "\<forall>l \<in> set clause. \<bar>l\<bar> \<le> int n"
    by (simp add: ok_literal_loop)
  from b have "3 \<le> n \<and> nc < m \<and> k < m"
    by (auto simp: ok_circuit_ccx py_index_input py_index_aux split: if_splits)
  with c assms(2) show ?thesis by (simp add: fits_def)
qed

lemma fits_clause_step:
  assumes "fits n m nc k clause"
  shows "ok (clause_step (input_register n) (aux_register m) (int nc) (int k, clause))"
    and "gates (clause_step (input_register n) (aux_register m) (int nc) (int k, clause)) =
         clause_gates nc k clause"
proof -
  have lits: "\<forall>l \<in> set clause. l \<noteq> 0 \<and> \<bar>l\<bar> \<le> int n" and n: "3 \<le> n" and nc: "nc < m" and k: "k < m"
    using assms by (simp_all add: fits_def)
  have a: "ok (for_each (literal_step (input_register n) (aux_register m) (int k)) clause)"
    using lits k by (simp add: ok_for_each appends_literal_step ok_literal_step)
  have b: "ok (for_each (literal_restore (input_register n)) clause)"
    using lits by (rule ok_restore_loop)
  have i: "py_index (input_register n) 0 = Inr (Input 0)"
    "py_index (input_register n) 1 = Inr (Input 1)"
    "py_index (input_register n) 2 = Inr (Input 2)"
    "py_index (aux_register m) (int nc) = Inr (Aux nc)"
    "py_index (aux_register m) (int k) = Inr (Aux k)"
    using n nc k by (simp_all add: py_index_input py_index_aux)
  show "ok (clause_step (input_register n) (aux_register m) (int nc) (int k, clause))"
    using a b
    by (simp add: clause_step_def ok_seq ok_skip appends_basic appends_literal_step
        appends_literal_restore i ok_circuit_ccx)
  show "gates (clause_step (input_register n) (aux_register m) (int nc) (int k, clause)) =
         clause_gates nc k clause"
    using a b
    by (simp add: clause_step_def clause_gates_def ok_seq gates_seq ok_skip gates_skip
        appends_basic appends_literal_step appends_literal_restore i ok_circuit_ccx
        gates_circuit_ccx gates_literal_loop [OF lits k] gates_restore_loop [OF lits])
qed

section \<open>The loop over the clauses, the dispatch and the whole oracle\<close>

lemma flip_negatives_input_cong:
  "same_inputs s t \<Longrightarrow> flip_negatives ls s (Input i) = flip_negatives ls t (Input i)"
  by (simp add: flip_negatives_def same_inputs_def)

lemma clause_delta_cong:
  assumes "same_inputs s t" and "s (Aux nc) = t (Aux nc)"
  shows "clause_delta nc clause s = clause_delta nc clause t"
  unfolding clause_delta_def Let_def
  by (simp only: parity_added_cong [OF assms(1)] flip_negatives_input_cong [OF assms(1)] assms(2))

lemma pass_gates_Nil: "pass_gates nc k0 [] = []"
  by (simp add: pass_gates_def)

lemma pass_gates_Cons:
  "pass_gates nc k0 (clause # F) = clause_gates nc k0 clause @ pass_gates nc (Suc k0) F"
  by (simp add: pass_gates_def)

lemma run_pass_gates:
  assumes "k0 + length F \<le> nc" and "\<forall>clause \<in> set F. 0 \<notin> set clause"
  shows "run (pass_gates nc k0 F) s = Some (after_pass nc k0 F s)"
  using assms
proof (induction F arbitrary: k0 s)
  case Nil
  have "after_pass nc k0 [] s = s"
    by (rule ext) (auto simp: after_pass_def split: qubit.splits)
  then show ?case by (simp add: pass_gates_Nil)
next
  case (Cons clause F)
  let ?s1 = "s(Aux k0 := (s (Aux k0) \<noteq> clause_delta nc clause s))"
  have k0: "k0 \<noteq> nc" and nz: "0 \<notin> set clause"
    using Cons.prems by simp_all
  have step: "run (clause_gates nc k0 clause) s = Some ?s1"
    using k0 nz by (rule run_clause_gates)
  have rest: "run (pass_gates nc (Suc k0) F) ?s1 = Some (after_pass nc (Suc k0) F ?s1)"
    using Cons.prems by (intro Cons.IH) simp_all
  have d: "clause_delta nc c (s(Aux k0 := b)) = clause_delta nc c s" for c b
    using k0 by (intro clause_delta_cong) (simp_all add: same_inputs_def)
  have "after_pass nc (Suc k0) F ?s1 = after_pass nc k0 (clause # F) s"
  proof (rule ext)
    fix q
    show "after_pass nc (Suc k0) F ?s1 q = after_pass nc k0 (clause # F) s q"
    proof (cases q)
      case (Aux j)
      show ?thesis
      proof (cases "j = k0")
        case True
        with Aux show ?thesis by (simp add: after_pass_def)
      next
        case False
        then have "Suc k0 \<le> j \<Longrightarrow> (clause # F) ! (j - k0) = F ! (j - Suc k0)"
          by (simp add: nth_Cons')
        with False Aux show ?thesis by (auto simp: after_pass_def d)
      qed
    qed (simp_all add: after_pass_def)
  qed
  with step rest show ?case
    by (simp add: pass_gates_Cons run_append)
qed

lemma clause_loop_fits:
  assumes "\<forall>k < length F. fits n m nc (k0 + k) (F ! k)"
  shows "ok (for_each (clause_step (input_register n) (aux_register m) (int nc))
              (map (\<lambda>(k, clause). (int k, clause)) (enumerate k0 F)))"
    and "gates (for_each (clause_step (input_register n) (aux_register m) (int nc))
              (map (\<lambda>(k, clause). (int k, clause)) (enumerate k0 F))) = pass_gates nc k0 F"
  using assms
proof (induction F arbitrary: k0)
  case Nil
  { case 1 show ?case by (simp add: ok_skip) }
  { case 2 show ?case by (simp add: gates_skip pass_gates_Nil) }
next
  case (Cons clause F)
  { case 1
    have a: "fits n m nc k0 clause" using 1 [rule_format, of 0] by simp
    have b: "\<forall>k < length F. fits n m nc (Suc k0 + k) (F ! k)"
      using 1 by (auto dest: spec [of _ "Suc k" for k])
    show ?case
      using fits_clause_step(1) [OF a] Cons.IH(1) [OF b]
      by (simp add: ok_seq appends_clause_step appends_for_each) }
  { case 2
    have a: "fits n m nc k0 clause" using 2 [rule_format, of 0] by simp
    have b: "\<forall>k < length F. fits n m nc (Suc k0 + k) (F ! k)"
      using 2 by (auto dest: spec [of _ "Suc k" for k])
    show ?case
      using fits_clause_step [OF a] Cons.IH(2) [OF b]
      by (simp add: gates_seq appends_clause_step appends_for_each pass_gates_Cons) }
qed

lemma clause_loop_ok_fits:
  assumes "ok (for_each (clause_step (input_register n) (aux_register m) (int nc))
              (map (\<lambda>(k, clause). (int k, clause)) (enumerate k0 F)))"
    and "\<forall>clause \<in> set F. 0 \<notin> set clause"
  shows "\<forall>k < length F. fits n m nc (k0 + k) (F ! k)"
  using assms
proof (induction F arbitrary: k0)
  case Nil
  show ?case by simp
next
  case (Cons clause F)
  have a: "ok (clause_step (input_register n) (aux_register m) (int nc) (int k0, clause))"
   and b: "ok (for_each (clause_step (input_register n) (aux_register m) (int nc))
              (map (\<lambda>(k, clause). (int k, clause)) (enumerate (Suc k0) F)))"
    using Cons.prems(1)
    by (simp_all add: ok_seq appends_clause_step appends_for_each)
  have c: "fits n m nc k0 clause"
    using a Cons.prems(2) by (intro ok_clause_step_fits) auto
  have d: "\<forall>k < length F. fits n m nc (Suc k0 + k) (F ! k)"
    using b Cons.prems(2) by (intro Cons.IH) simp_all
  show ?case
  proof (intro allI impI)
    fix k assume "k < length (clause # F)"
    then show "fits n m nc (k0 + k) ((clause # F) ! k)"
      using c d by (cases k) simp_all
  qed
qed

lemma py_enumerate_conv:
  "py_enumerate F = map (\<lambda>(k, clause). (int k, clause)) (enumerate 0 F)"
  by (simp add: py_enumerate_def enumerate_eq_zip zip_map1)

lemma not_ok_raise: "\<not> ok (raise e)"
  by (simp add: ok_def raise_def)

lemma after_pass_Aux:
  "after_pass nc 0 F u (Aux j) =
     (if j < length F then (u (Aux j) \<noteq> clause_delta nc (F ! j) u) else u (Aux j))"
  by (simp add: after_pass_def)

lemma after_pass_Input: "after_pass nc k0 F u (Input i) = u (Input i)"
  by (simp add: after_pass_def)

lemma after_pass_Output: "after_pass nc k0 F u (Output i) = u (Output i)"
  by (simp add: after_pass_def)

lemma ok_clause_dispatch:
  assumes "nc < m"
  shows "ok (clause_dispatch (output_register n_out) (aux_register m) (int nc)) =
         (nc \<in> {1, 2, 3} \<and> 0 < n_out)"
  using assms
  by (auto simp: clause_dispatch_def ok_seq ok_skip appends_basic ok_circuit_cx ok_circuit_ccx
      py_index_aux py_index_output not_ok_raise)

lemma gates_clause_dispatch:
  assumes "nc < m" and "nc \<in> {1, 2, 3}" and "0 < n_out"
  shows "gates (clause_dispatch (output_register n_out) (aux_register m) (int nc)) =
         dispatch_gates nc"
  using assms
  by (auto simp: clause_dispatch_def dispatch_gates_def ok_seq gates_seq ok_skip gates_skip
      appends_basic ok_circuit_cx ok_circuit_ccx gates_circuit_cx gates_circuit_ccx
      py_index_aux py_index_output)

lemma run_dispatch_gates:
  assumes "nc \<in> {1, 2, 3}"
  shows "run (dispatch_gates nc) s =
         Some (s(Output 0 := (s (Output 0) \<noteq> dispatch_delta nc s)))"
proof -
  let ?a = "s (Aux 3) \<noteq> (s (Aux 0) \<and> s (Aux 1))"
  let ?u1 = "s(Aux 3 := ?a)"
  let ?u2 = "?u1(Output 0 := (?u1 (Output 0) \<noteq> (?u1 (Aux 2) \<and> ?u1 (Aux 3))))"
  let ?u3 = "?u2(Aux 3 := (?u2 (Aux 3) \<noteq> (?u2 (Aux 0) \<and> ?u2 (Aux 1))))"
  have three: "run [CCX (Aux 0) (Aux 1) (Aux 3), CCX (Aux 2) (Aux 3) (Output 0),
                    CCX (Aux 0) (Aux 1) (Aux 3)] s = Some ?u3"
    by (simp only: run.simps apply_gate.simps option.case)
  have "?u3 = s(Output 0 := (s (Output 0) \<noteq> (s (Aux 2) \<and> ?a)))"
  proof (rule ext)
    fix q
    show "?u3 q = (s(Output 0 := (s (Output 0) \<noteq> (s (Aux 2) \<and> ?a)))) q"
      by (cases "q = Aux 3"; cases "q = Output 0") auto
  qed
  with three have c3: "run (dispatch_gates 3) s =
      Some (s(Output 0 := (s (Output 0) \<noteq> dispatch_delta 3 s)))"
    by (simp add: dispatch_gates_def dispatch_delta_def)
  have c1: "run (dispatch_gates 1) s = Some (s(Output 0 := (s (Output 0) \<noteq> dispatch_delta 1 s)))"
    by (simp add: dispatch_gates_def dispatch_delta_def)
  have c2: "run (dispatch_gates 2) s = Some (s(Output 0 := (s (Output 0) \<noteq> dispatch_delta 2 s)))"
    by (simp add: dispatch_gates_def dispatch_delta_def)
  from assms c1 c2 c3 show ?thesis by auto
qed

lemma clause_loop_ok:
  assumes "\<forall>k < length F. fits n m (length F) k (F ! k)"
  shows "ok (clause_loop (input_register n) (aux_register m) F)"
    and "gates (clause_loop (input_register n) (aux_register m) F) = pass_gates (length F) 0 F"
  using clause_loop_fits [of F n m "length F" 0] assms
  by (simp_all add: clause_loop_def py_enumerate_conv)

lemma fits_nc: "F \<noteq> [] \<Longrightarrow> \<forall>k < length F. fits n m (length F) k (F ! k) \<Longrightarrow> length F < m"
  by (cases F) (auto simp: fits_def)

lemma oracle_fits:
  assumes "formula_fits n n_out m F"
  shows "ok (oracle_fun (input_register n) (output_register n_out) (aux_register m) n' F)"
    and "gates (oracle_fun (input_register n) (output_register n_out) (aux_register m) n' F) =
         oracle_gates F"
proof -
  have f: "\<forall>k < length F. fits n m (length F) k (F ! k)" and nc: "length F \<in> {1, 2, 3}"
    and o: "0 < n_out"
    using assms by (simp_all add: formula_fits_def)
  from nc have "F \<noteq> []" by auto
  then have m: "length F < m" using f by (rule fits_nc)
  note loop = clause_loop_ok [OF f]
  have d: "ok (clause_dispatch (output_register n_out) (aux_register m) (int (length F)))"
    using nc o by (simp add: ok_clause_dispatch [OF m])
  note dg = gates_clause_dispatch [OF m nc o]
  show "ok (oracle_fun (input_register n) (output_register n_out) (aux_register m) n' F)"
    using loop(1) d
    by (simp add: oracle_fun_def ok_seq ok_skip appends_basic appends_clause_loop
        appends_clause_dispatch)
  show "gates (oracle_fun (input_register n) (output_register n_out) (aux_register m) n' F) =
         oracle_gates F"
    using loop d dg
    by (simp add: oracle_fun_def oracle_gates_def ok_seq gates_seq ok_skip gates_skip
        appends_basic appends_clause_loop appends_clause_dispatch)
qed

lemma oracle_ok_fits:
  assumes "ok (oracle_fun (input_register n) (output_register n_out) (aux_register m) n' F)"
    and "\<forall>clause \<in> set F. 0 \<notin> set clause"
  shows "formula_fits n n_out m F"
proof -
  have a: "ok (clause_loop (input_register n) (aux_register m) F)"
   and b: "ok (clause_dispatch (output_register n_out) (aux_register m) (int (length F)))"
    using assms(1)
    by (simp_all add: oracle_fun_def ok_seq appends_basic appends_clause_loop
        appends_clause_dispatch)
  have f: "\<forall>k < length F. fits n m (length F) k (F ! k)"
    using clause_loop_ok_fits [of n m "length F" 0 F] a assms(2)
    by (simp add: clause_loop_def py_enumerate_conv)
  have ne: "F \<noteq> []"
  proof
    assume "F = []"
    with b show False by (simp add: clause_dispatch_def not_ok_raise)
  qed
  then have m: "length F < m" using f by (rule fits_nc)
  from b have "length F \<in> {1, 2, 3} \<and> 0 < n_out"
    by (simp only: ok_clause_dispatch [OF m])
  with f show ?thesis by (simp add: formula_fits_def)
qed

lemma run_oracle_gates:
  assumes "length F \<in> {1, 2, 3}" and "\<forall>clause \<in> set F. 0 \<notin> set clause"
  shows "run (oracle_gates F) s =
         Some (s(Output 0 := (s (Output 0) \<noteq> dispatch_delta (length F) (after_pass (length F) 0 F s))))"
proof -
  let ?nc = "length F"
  let ?s1 = "after_pass ?nc 0 F s"
  let ?v = "s (Output 0) \<noteq> dispatch_delta ?nc ?s1"
  let ?s2 = "?s1(Output 0 := ?v)"
  have p: "run (pass_gates ?nc 0 F) u = Some (after_pass ?nc 0 F u)" for u
    using assms(2) by (intro run_pass_gates) simp_all
  have o1: "?s1 (Output 0) = s (Output 0)"
    by (simp add: after_pass_Output)
  have d: "run (dispatch_gates ?nc) ?s1 = Some ?s2"
    by (simp only: run_dispatch_gates [OF assms(1)] o1)
  have delta: "clause_delta ?nc c (?s1(Output 0 := b)) = clause_delta ?nc c s" for c b
    by (intro clause_delta_cong) (simp_all add: same_inputs_def after_pass_Input after_pass_Aux)
  have "after_pass ?nc 0 F ?s2 = s(Output 0 := ?v)"
  proof (rule ext)
    fix q
    show "after_pass ?nc 0 F ?s2 q = (s(Output 0 := ?v)) q"
      by (cases q) (auto simp: after_pass_Aux after_pass_Input after_pass_Output delta)
  qed
  then show ?thesis
    by (simp add: oracle_gates_def run_append p d)
qed

section \<open>Clauses over the three variables\<close>

lemma literal_true_variable:
  "l \<noteq> 0 \<Longrightarrow> literal_true (input_bits s) l = (s (Input (variable l)) \<noteq> (l < 0))"
  by (auto simp: literal_true_def input_bits_def variable_def)

lemma parity_added_fresh:
  "v \<notin> set (map variable ls) \<Longrightarrow> parity_added ls (s(Input v := b)) = parity_added ls s"
proof (induction ls arbitrary: s)
  case Nil
  show ?case by simp
next
  case (Cons l ls)
  let ?j = "Input (variable l)"
  have ne: "Input v \<noteq> ?j" and fresh: "v \<notin> set (map variable ls)"
    using Cons.prems by auto
  have val: "(s(Input v := b)) ?j = s ?j"
    using ne by simp
  have tw: "(s(Input v := b))(?j := \<not> s ?j) = (s(?j := \<not> s ?j))(Input v := b)"
    using ne by (rule fun_upd_twist)
  show ?case
    by (simp only: parity_added.simps val tw Cons.IH [OF fresh])
qed

lemma parity_added_Cons:
  assumes "l \<noteq> 0" and "variable l \<notin> set (map variable ls)"
  shows "parity_added (l # ls) s = (literal_true (input_bits s) l \<noteq> parity_added ls s)"
proof (cases "l > 0")
  case True
  then show ?thesis by (simp add: literal_true_variable [OF assms(1)])
next
  case False
  with assms(1) have "l < 0" by simp
  then show ?thesis
    by (simp add: literal_true_variable [OF assms(1)] parity_added_fresh [OF assms(2)])
qed

lemma parity_added_3:
  assumes "distinct [variable a, variable b, variable c]" and "a \<noteq> 0" and "b \<noteq> 0" and "c \<noteq> 0"
  shows "parity_added [a, b, c] s =
         (literal_true (input_bits s) a \<noteq> (literal_true (input_bits s) b \<noteq> literal_true (input_bits s) c))"
proof -
  have "parity_added [c] s = (literal_true (input_bits s) c \<noteq> parity_added [] s)"
    using assms(4) by (intro parity_added_Cons) simp_all
  then have "parity_added [c] s = literal_true (input_bits s) c"
    by simp
  moreover have "parity_added [b, c] s = (literal_true (input_bits s) b \<noteq> parity_added [c] s)"
    using assms(1,3) by (intro parity_added_Cons) simp_all
  moreover have "parity_added [a, b, c] s = (literal_true (input_bits s) a \<noteq> parity_added [b, c] s)"
    using assms(1,2) by (intro parity_added_Cons) simp_all
  ultimately show ?thesis by (simp only:)
qed

lemma flip_negatives_3:
  assumes "distinct [variable a, variable b, variable c]" and "a \<noteq> 0" and "b \<noteq> 0" and "c \<noteq> 0"
  shows "flip_negatives [a, b, c] s (Input (variable a)) = literal_true (input_bits s) a"
    and "flip_negatives [a, b, c] s (Input (variable b)) = literal_true (input_bits s) b"
    and "flip_negatives [a, b, c] s (Input (variable c)) = literal_true (input_bits s) c"
  using assms by (auto simp: literal_true_variable flip_negatives_def negated_def)

lemma exactly_one_3:
  "exactly_one v [a, b, c] =
     ((literal_true v a \<noteq> (literal_true v b \<noteq> literal_true v c)) \<noteq>
      (literal_true v a \<and> literal_true v b \<and> literal_true v c))"
  by (auto simp: exactly_one_def true_literals_def)

lemma clause_delta_3:
  assumes "(\<bar>a\<bar> = 1 \<and> \<bar>b\<bar> = 2 \<and> \<bar>c\<bar> = 3) \<or> (\<bar>a\<bar> = 1 \<and> \<bar>b\<bar> = 3 \<and> \<bar>c\<bar> = 2) \<or>
         (\<bar>a\<bar> = 2 \<and> \<bar>b\<bar> = 1 \<and> \<bar>c\<bar> = 3) \<or> (\<bar>a\<bar> = 2 \<and> \<bar>b\<bar> = 3 \<and> \<bar>c\<bar> = 1) \<or>
         (\<bar>a\<bar> = 3 \<and> \<bar>b\<bar> = 1 \<and> \<bar>c\<bar> = 2) \<or> (\<bar>a\<bar> = 3 \<and> \<bar>b\<bar> = 2 \<and> \<bar>c\<bar> = (1::int))"
    and "\<not> s (Aux nc)"
  shows "clause_delta nc [a, b, c] s = exactly_one (input_bits s) [a, b, c]"
proof -
  have nz: "a \<noteq> 0" "b \<noteq> 0" "c \<noteq> 0"
    using assms(1) by auto
  have v: "(variable a = 0 \<and> variable b = 1 \<and> variable c = 2) \<or>
           (variable a = 0 \<and> variable b = 2 \<and> variable c = 1) \<or>
           (variable a = 1 \<and> variable b = 0 \<and> variable c = 2) \<or>
           (variable a = 1 \<and> variable b = 2 \<and> variable c = 0) \<or>
           (variable a = 2 \<and> variable b = 0 \<and> variable c = 1) \<or>
           (variable a = 2 \<and> variable b = 1 \<and> variable c = 0)"
    using assms(1) unfolding variable_def by (elim disjE conjE) simp_all
  then have d: "distinct [variable a, variable b, variable c]"
    by (elim disjE conjE) simp_all
  note f = flip_negatives_3 [OF d nz, of s]
  note p = parity_added_3 [OF d nz, of s]
  from v show ?thesis
  proof (elim disjE conjE)
    assume va: "variable a = 0" "variable b = 1" "variable c = 2"
    show ?thesis
      by (simp only: clause_delta_def Let_def p exactly_one_3 f [unfolded va])
        (use assms(2) in auto)
  next
    assume va: "variable a = 0" "variable b = 2" "variable c = 1"
    show ?thesis
      by (simp only: clause_delta_def Let_def p exactly_one_3 f [unfolded va])
        (use assms(2) in auto)
  next
    assume va: "variable a = 1" "variable b = 0" "variable c = 2"
    show ?thesis
      by (simp only: clause_delta_def Let_def p exactly_one_3 f [unfolded va])
        (use assms(2) in auto)
  next
    assume va: "variable a = 1" "variable b = 2" "variable c = 0"
    show ?thesis
      by (simp only: clause_delta_def Let_def p exactly_one_3 f [unfolded va])
        (use assms(2) in auto)
  next
    assume va: "variable a = 2" "variable b = 0" "variable c = 1"
    show ?thesis
      by (simp only: clause_delta_def Let_def p exactly_one_3 f [unfolded va])
        (use assms(2) in auto)
  next
    assume va: "variable a = 2" "variable b = 1" "variable c = 0"
    show ?thesis
      by (simp only: clause_delta_def Let_def p exactly_one_3 f [unfolded va])
        (use assms(2) in auto)
  qed
qed

lemma clause_over_3_cases:
  assumes "clause_over_3 clause"
  obtains a b c where "clause = [a, b, c]"
    and "(\<bar>a\<bar> = 1 \<and> \<bar>b\<bar> = 2 \<and> \<bar>c\<bar> = 3) \<or> (\<bar>a\<bar> = 1 \<and> \<bar>b\<bar> = 3 \<and> \<bar>c\<bar> = 2) \<or>
         (\<bar>a\<bar> = 2 \<and> \<bar>b\<bar> = 1 \<and> \<bar>c\<bar> = 3) \<or> (\<bar>a\<bar> = 2 \<and> \<bar>b\<bar> = 3 \<and> \<bar>c\<bar> = 1) \<or>
         (\<bar>a\<bar> = 3 \<and> \<bar>b\<bar> = 1 \<and> \<bar>c\<bar> = 2) \<or> (\<bar>a\<bar> = 3 \<and> \<bar>b\<bar> = 2 \<and> \<bar>c\<bar> = 1)"
proof -
  from assms have "length clause = 3" by (simp add: clause_over_3_def)
  then obtain a b c where cl: "clause = [a, b, c]"
    by (auto simp: length_Suc_conv numeral_3_eq_3)
  from assms have cnt: "count_list [\<bar>a\<bar>, \<bar>b\<bar>, \<bar>c\<bar>] 1 = 1" "count_list [\<bar>a\<bar>, \<bar>b\<bar>, \<bar>c\<bar>] 2 = 1"
      "count_list [\<bar>a\<bar>, \<bar>b\<bar>, \<bar>c\<bar>] 3 = 1"
    unfolding clause_over_3_def cl by simp_all
  have "(\<bar>a\<bar> = 1 \<and> \<bar>b\<bar> = 2 \<and> \<bar>c\<bar> = 3) \<or> (\<bar>a\<bar> = 1 \<and> \<bar>b\<bar> = 3 \<and> \<bar>c\<bar> = 2) \<or>
         (\<bar>a\<bar> = 2 \<and> \<bar>b\<bar> = 1 \<and> \<bar>c\<bar> = 3) \<or> (\<bar>a\<bar> = 2 \<and> \<bar>b\<bar> = 3 \<and> \<bar>c\<bar> = 1) \<or>
         (\<bar>a\<bar> = 3 \<and> \<bar>b\<bar> = 1 \<and> \<bar>c\<bar> = 2) \<or> (\<bar>a\<bar> = 3 \<and> \<bar>b\<bar> = 2 \<and> \<bar>c\<bar> = 1)"
    using cnt by (simp split: if_splits)
  with cl show ?thesis by (rule that)
qed

lemma clause_over_3_fits:
  assumes "clause_over_3 clause" and "nc < m" and "k < m"
  shows "fits 3 m nc k clause"
proof -
  from assms(1) obtain a b c where cl: "clause = [a, b, c]"
    and p: "(\<bar>a\<bar> = 1 \<and> \<bar>b\<bar> = 2 \<and> \<bar>c\<bar> = 3) \<or> (\<bar>a\<bar> = 1 \<and> \<bar>b\<bar> = 3 \<and> \<bar>c\<bar> = 2) \<or>
         (\<bar>a\<bar> = 2 \<and> \<bar>b\<bar> = 1 \<and> \<bar>c\<bar> = 3) \<or> (\<bar>a\<bar> = 2 \<and> \<bar>b\<bar> = 3 \<and> \<bar>c\<bar> = 1) \<or>
         (\<bar>a\<bar> = 3 \<and> \<bar>b\<bar> = 1 \<and> \<bar>c\<bar> = 2) \<or> (\<bar>a\<bar> = 3 \<and> \<bar>b\<bar> = 2 \<and> \<bar>c\<bar> = 1)"
    by (rule clause_over_3_cases)
  from p have "a \<noteq> 0 \<and> \<bar>a\<bar> \<le> 3 \<and> b \<noteq> 0 \<and> \<bar>b\<bar> \<le> 3 \<and> c \<noteq> 0 \<and> \<bar>c\<bar> \<le> 3"
    by auto
  with assms(2,3) show ?thesis by (simp add: fits_def cl)
qed

lemma clause_over_3_delta:
  assumes "clause_over_3 clause" and "\<not> s (Aux nc)"
  shows "clause_delta nc clause s = exactly_one (input_bits s) clause"
proof -
  from assms(1) obtain a b c where cl: "clause = [a, b, c]"
    and p: "(\<bar>a\<bar> = 1 \<and> \<bar>b\<bar> = 2 \<and> \<bar>c\<bar> = 3) \<or> (\<bar>a\<bar> = 1 \<and> \<bar>b\<bar> = 3 \<and> \<bar>c\<bar> = 2) \<or>
         (\<bar>a\<bar> = 2 \<and> \<bar>b\<bar> = 1 \<and> \<bar>c\<bar> = 3) \<or> (\<bar>a\<bar> = 2 \<and> \<bar>b\<bar> = 3 \<and> \<bar>c\<bar> = 1) \<or>
         (\<bar>a\<bar> = 3 \<and> \<bar>b\<bar> = 1 \<and> \<bar>c\<bar> = 2) \<or> (\<bar>a\<bar> = 3 \<and> \<bar>b\<bar> = 2 \<and> \<bar>c\<bar> = 1)"
    by (rule clause_over_3_cases)
  show ?thesis unfolding cl using p assms(2) by (rule clause_delta_3)
qed

lemma clause_over_3_nonzero: "clause_over_3 clause \<Longrightarrow> 0 \<notin> set clause"
  using clause_over_3_fits [of clause 0 1 0] by (auto simp: fits_def)

lemma exactly_one_parity:
  assumes "length clause = 3"
  shows "exactly_one v clause =
         (odd (true_literals v clause) \<noteq> (true_literals v clause = 3))"
proof -
  have "true_literals v clause \<le> 3"
    unfolding true_literals_def using assms length_filter_le [of "literal_true v" clause] by simp
  then have "true_literals v clause \<in> {0, 1, 2, 3}" by auto
  then show ?thesis unfolding exactly_one_def by auto
qed

lemma formula_cases:
  assumes "1 \<le> length F" and "length F \<le> 3"
  obtains c0 where "F = [c0]" | c0 c1 where "F = [c0, c1]" | c0 c1 c2 where "F = [c0, c1, c2]"
proof -
  from assms have "length F = 1 \<or> length F = 2 \<or> length F = 3" by arith
  then show ?thesis
    using that by (auto simp: length_Suc_conv numeral_2_eq_2 numeral_3_eq_3)
qed

lemma dispatch_satisfied:
  assumes "1 \<le> length F" and "length F \<le> 3"
    and "\<forall>k < length F. u (Aux k) = exactly_one v (F ! k)" and "\<not> u (Aux 3)"
  shows "dispatch_delta (length F) u = satisfied v F"
  using assms(1,2)
proof (cases F rule: formula_cases)
  case (1 c0)
  with assms(3) show ?thesis by (simp add: dispatch_delta_def satisfied_def)
next
  case (2 c0 c1)
  with assms(3) have "u (Aux 0) = exactly_one v c0" "u (Aux 1) = exactly_one v c1"
    by (auto dest: spec [of _ 0] spec [of _ 1])
  with 2 show ?thesis by (simp add: dispatch_delta_def satisfied_def)
next
  case (3 c0 c1 c2)
  with assms(3) have "u (Aux 0) = exactly_one v c0" "u (Aux 1) = exactly_one v c1"
      "u (Aux 2) = exactly_one v c2"
    by (auto dest: spec [of _ 0] spec [of _ 1] spec [of _ 2])
  with 3 assms(4) show ?thesis by (auto simp: dispatch_delta_def satisfied_def)
qed

section \<open>The exceptions of the oracle\<close>

lemma ok_circuit_ccx_gates: "ok (circuit_ccx q r t) \<Longrightarrow> gates (circuit_ccx q r t) \<noteq> []"
  by (auto simp: ok_circuit_ccx gates_circuit_ccx)

lemma clause_step_nonempty:
  assumes "ok (clause_step circuit_input aux num_clauses kc)"
  shows "gates (clause_step circuit_input aux num_clauses kc) \<noteq> []"
proof -
  obtain k clause where kc: "kc = (k, clause)" by (cases kc)
  let ?t = "circuit_ccx (py_index circuit_input 0) (py_index circuit_input 1) (py_index aux num_clauses)"
  have a: "ok (for_each (literal_step circuit_input aux k) clause)" and b: "ok ?t"
    using assms unfolding kc
    by (simp_all add: clause_step_def ok_seq appends_basic appends_literal_step
        appends_literal_restore)
  have "gates ?t \<noteq> []" using b by (rule ok_circuit_ccx_gates)
  then show ?thesis
    using a b unfolding kc
    by (simp add: clause_step_def gates_seq appends_basic appends_literal_step
        appends_literal_restore)
qed

lemma clause_loop_nonempty:
  assumes "ok (clause_loop circuit_input aux formula)" and "formula \<noteq> []"
  shows "gates (clause_loop circuit_input aux formula) \<noteq> []"
proof -
  obtain clause F where f: "formula = clause # F" using assms(2) by (cases formula) auto
  let ?body = "clause_step circuit_input aux (int (length formula))"
  have e: "py_enumerate formula = (0, clause) # map (\<lambda>(k, c). (int k, c)) (enumerate 1 F)"
    by (simp add: py_enumerate_conv f)
  have a: "ok (?body (0, clause))"
    using assms(1) by (simp add: clause_loop_def e ok_seq appends_clause_step appends_for_each)
  then have "gates (?body (0, clause)) \<noteq> []" by (rule clause_step_nonempty)
  then show ?thesis
    using a by (simp add: clause_loop_def e gates_seq appends_clause_step appends_for_each)
qed

lemma py_index_cases: "py_index xs i = Inl IndexError \<or> (\<exists>a. py_index xs i = Inr a)"
  by (simp add: py_index_def Let_def)

lemma fst_circuit_cx_index:
  "fst (circuit_cx (py_index xs i) (py_index ys j) c) \<in> {None, Some IndexError}"
  using py_index_cases [of xs i] py_index_cases [of ys j] by (auto simp: circuit_cx_def)

lemma fst_circuit_ccx_index:
  "fst (circuit_ccx (py_index xs i) (py_index ys j) (py_index zs k) c) \<in> {None, Some IndexError}"
  using py_index_cases [of xs i] py_index_cases [of ys j] py_index_cases [of zs k]
  by (auto simp: circuit_ccx_def)

lemma fst_seq_cases:
  assumes "\<And>c. fst (p c) \<in> {None, Some IndexError}" and "\<And>c. fst (q c) \<in> {None, Some IndexError}"
  shows "fst (seq p q c) \<in> {None, Some IndexError}"
proof (cases "p c")
  case (Pair r c')
  with assms(1) [of c] assms(2) [of c'] show ?thesis
    by (cases r) (auto simp: seq_def)
qed

lemma fst_skip: "fst (skip c) \<in> {None, Some IndexError}"
  by (simp add: skip_def)

lemma fst_clause_dispatch:
  assumes "num_clauses \<in> {1, 2, 3}"
  shows "fst (clause_dispatch circuit_output aux num_clauses c) \<in> {None, Some IndexError}"
proof -
  from assms consider "num_clauses = 1" | "num_clauses = 2" | "num_clauses = 3" by auto
  then show ?thesis
  proof cases
    case 1
    then show ?thesis using fst_circuit_cx_index by (simp add: clause_dispatch_def)
  next
    case 2
    then show ?thesis using fst_circuit_ccx_index by (simp add: clause_dispatch_def)
  next
    case 3
    have "fst (block [
          circuit_ccx (py_index aux 0) (py_index aux 1) (py_index aux 3),
          circuit_ccx (py_index aux 2) (py_index aux 3) (py_index circuit_output 0),
          circuit_ccx (py_index aux 0) (py_index aux 1) (py_index aux 3)] c) \<in> {None, Some IndexError}"
      unfolding block.simps
      by (intro fst_seq_cases fst_circuit_ccx_index fst_skip)
    with 3 show ?thesis by (simp add: clause_dispatch_def)
  qed
qed

section \<open>The claims\<close>

text \<open>
  Claim C1. Take an exactly-1 3-SAT formula of 1 to 3 clauses, each clause holding each
  of the variables 1, 2, 3 in exactly one literal, three input qubits, one output qubit
  and a work register of one qubit more than there are clauses. On every basis state
  whose work qubits are all 0, \<open>oracle\<close> returns normally and the gates it appends
  leave in the output qubit its bit plus (modulo 2) \<open>f(x)\<close>, where \<open>x\<close> is the input
  and \<open>f(x) = 1\<close> exactly when every clause has exactly one true literal: the output
  qubit flips exactly on the satisfying inputs. After the first loop over the clauses
  \<open>aux[k]\<close> holds, for clause \<open>k\<close>, the parity of the number of its true literals
  plus whether all three are true.
\<close>

theorem oracle_marks_satisfying_inputs:
  assumes "1 \<le> length formula" and "length formula \<le> 3"
    and "list_all clause_over_3 formula"
    and "\<forall>k. \<not> s (Aux k)"
  shows "(\<exists>gs s'.
     oracle_fun (input_register 3) (output_register 1) (aux_register (length formula + 1)) n
       formula c = (None, c @ gs) \<and>
     run gs s = Some s' \<and>
     s' (Output 0) = (s (Output 0) \<noteq> satisfied (input_bits s) formula)) \<and>
   (\<exists>gs s'.
     clause_loop (input_register 3) (aux_register (length formula + 1)) formula c =
       (None, c @ gs) \<and>
     run gs s = Some s' \<and>
     (\<forall>k < length formula.
        s' (Aux k) =
          (odd (true_literals (input_bits s) (formula ! k)) \<noteq>
           (true_literals (input_bits s) (formula ! k) = 3))))"
proof -
  let ?nc = "length formula"
  let ?p = "oracle_fun (input_register 3) (output_register 1) (aux_register (?nc + 1)) n formula"
  have wf: "\<forall>k < ?nc. clause_over_3 (formula ! k)"
    using assms(3) by (simp add: list_all_length)
  have nz: "\<forall>clause \<in> set formula. 0 \<notin> set clause"
    using assms(3) by (auto simp: list_all_iff clause_over_3_nonzero)
  have nc: "?nc \<in> {1, 2, 3}"
    using assms(1,2) by auto
  have "formula_fits 3 1 (?nc + 1) formula"
    using wf nc by (simp add: formula_fits_def clause_over_3_fits)
  then have ok: "ok ?p" and g: "gates ?p = oracle_gates formula"
    by (rule oracle_fits)+
  have res: "?p c = (None, c @ oracle_gates formula)"
    using ok_result [OF appends_oracle ok] g by simp
  let ?s1 = "after_pass ?nc 0 formula s"
  have run: "run (oracle_gates formula) s =
      Some (s(Output 0 := (s (Output 0) \<noteq> dispatch_delta ?nc ?s1)))"
    using nc nz by (rule run_oracle_gates)
  have aux: "\<forall>k < ?nc. ?s1 (Aux k) = exactly_one (input_bits s) (formula ! k)"
    using wf assms(4) by (simp add: after_pass_Aux clause_over_3_delta)
  have anc: "\<not> ?s1 (Aux 3)"
    using assms(2,4) by (simp add: after_pass_Aux)
  have d: "dispatch_delta ?nc ?s1 = satisfied (input_bits s) formula"
    using assms(1,2) aux anc by (rule dispatch_satisfied)
  have len: "\<forall>k < ?nc. length (formula ! k) = 3"
    using wf by (simp add: clause_over_3_def)
  have par: "\<forall>k < ?nc. ?s1 (Aux k) =
      (odd (true_literals (input_bits s) (formula ! k)) \<noteq>
       (true_literals (input_bits s) (formula ! k) = 3))"
    using aux len by (simp add: exactly_one_parity)
  have fits: "\<forall>k < ?nc. fits 3 (?nc + 1) ?nc k (formula ! k)"
    using wf by (simp add: clause_over_3_fits)
  have lres: "clause_loop (input_register 3) (aux_register (?nc + 1)) formula c =
      (None, c @ pass_gates ?nc 0 formula)"
    using ok_result [OF appends_clause_loop clause_loop_ok(1) [OF fits]] clause_loop_ok(2) [OF fits]
    by simp
  have lrun: "run (pass_gates ?nc 0 formula) s = Some ?s1"
    using nz by (intro run_pass_gates) simp_all
  let ?s' = "s(Output 0 := (s (Output 0) \<noteq> dispatch_delta ?nc ?s1))"
  have "?s' (Output 0) = (s (Output 0) \<noteq> satisfied (input_bits s) formula)"
    by (simp add: d)
  with res run have first: "\<exists>gs s'. ?p c = (None, c @ gs) \<and> run gs s = Some s' \<and>
      s' (Output 0) = (s (Output 0) \<noteq> satisfied (input_bits s) formula)"
    by (intro exI [of _ "oracle_gates formula"] exI [of _ ?s'] conjI)
  from lres lrun par have second: "\<exists>gs s'.
     clause_loop (input_register 3) (aux_register (?nc + 1)) formula c = (None, c @ gs) \<and>
     run gs s = Some s' \<and>
     (\<forall>k < ?nc. s' (Aux k) =
          (odd (true_literals (input_bits s) (formula ! k)) \<noteq>
           (true_literals (input_bits s) (formula ! k) = 3)))"
    by (intro exI [of _ "pass_gates ?nc 0 formula"] exI [of _ ?s1] conjI)
  from first second show ?thesis by (rule conjI)
qed

text \<open>
  The notebook's formula at the input \<open>x = 101\<close>, which satisfies it: the output
  qubit goes from 0 to 1.
\<close>

theorem oracle_marks_satisfying_inputs_witness:
  "1 \<le> length [[1, 2, - 3], [- 1, - 2, - 3], [- 1, 2, 3 :: int]] \<and>
   length [[1, 2, - 3], [- 1, - 2, - 3], [- 1, 2, 3 :: int]] \<le> 3 \<and>
   list_all clause_over_3 [[1, 2, - 3], [- 1, - 2, - 3], [- 1, 2, 3]] \<and>
   (\<forall>k. \<not> basis_of [True, False, True] [False] [] (Aux k)) \<and>
   satisfied (input_bits (basis_of [True, False, True] [False] []))
     [[1, 2, - 3], [- 1, - 2, - 3], [- 1, 2, 3]] \<and>
   (\<exists>gs s'.
      oracle_fun (input_register 3) (output_register 1) (aux_register 4) 3
        [[1, 2, - 3], [- 1, - 2, - 3], [- 1, 2, 3]] [] = (None, gs) \<and>
      run gs (basis_of [True, False, True] [False] []) = Some s' \<and>
      s' (Output 0))"
proof -
  let ?F = "[[1, 2, - 3], [- 1, - 2, - 3], [- 1, 2, 3 :: int]]"
  let ?s = "basis_of [True, False, True] [False] []"
  have h1: "1 \<le> length ?F" and h2: "length ?F \<le> 3" by simp_all
  have h3: "list_all clause_over_3 ?F" by (simp add: clause_over_3_def)
  have h4: "\<forall>k. \<not> ?s (Aux k)" by (simp add: basis_of_def)
  have sat: "satisfied (input_bits ?s) ?F"
    by (simp add: satisfied_def exactly_one_def true_literals_def literal_true_def
        input_bits_def basis_of_def)
  have out: "\<not> ?s (Output 0)" by (simp add: basis_of_def)
  from oracle_marks_satisfying_inputs [OF h1 h2 h3 h4, of 3 "[]", THEN conjunct1] obtain gs s' where
    r: "oracle_fun (input_register 3) (output_register 1) (aux_register (length ?F + 1)) 3 ?F [] =
          (None, [] @ gs)"
      "run gs ?s = Some s'"
      "s' (Output 0) = (?s (Output 0) \<noteq> satisfied (input_bits ?s) ?F)"
    by blast
  have four: "length ?F + 1 = 4" by simp
  have "oracle_fun (input_register 3) (output_register 1) (aux_register 4) 3 ?F [] = (None, gs)"
    using r(1) by (simp only: four append_Nil)
  moreover have "s' (Output 0)"
    using r(3) sat out by simp
  ultimately have "\<exists>gs s'.
      oracle_fun (input_register 3) (output_register 1) (aux_register 4) 3 ?F [] = (None, gs) \<and>
      run gs ?s = Some s' \<and> s' (Output 0)"
    using r(2) by blast
  with h1 h2 h3 h4 sat show ?thesis by blast
qed




text \<open>
  Claim C3 reads the docstring of \<open>maxcut_obj\<close>: it returns the number of edges
  between the two partitions. The code subtracts 1 for each such edge, so it returns
  the negated number (lemma \<open>maxcut_obj_negated_cut\<close>). On the notebook's graph the
  bitstring \<open>0101\<close> indexes all nodes and cuts all 4 edges, and \<open>maxcut_obj\<close> returns
  \<open>-4\<close>.
\<close>

theorem maxcut_obj_returns_negated_cut_size:
  "indexes_all_nodes ''0101'' square_graph \<and> graph_ok square_graph \<and>
   cut_size ''0101'' square_graph = 4 \<and>
   maxcut_obj ''0101'' square_graph = Inr (- 4)"
  by (simp add: indexes_all_nodes_def graph_ok_def cut_size_def maxcut_obj_def square_graph_def
      py_index_def)

text \<open>
  Claim C4. When the counts add up to a positive total, \<open>compute_expectation\<close> returns
  the count-weighted average of \<open>maxcut_obj\<close> over the entries, each bitstring reversed
  before it is evaluated: the sum of \<open>maxcut_obj(reverse(bitstring), G) * count\<close> over
  the sum of the counts. (Where \<open>maxcut_obj\<close> raises on an entry there is no such
  average, and \<open>compute_expectation\<close> raises the same exception.)
\<close>

theorem compute_expectation_weighted_average:
  assumes "0 < sum_list (map snd counts)"
  shows "compute_expectation counts G =
     (case all_values (map (\<lambda>(bitstring, cnt). maxcut_obj (rev bitstring) G) counts) of
        Inl e \<Rightarrow> Inl e
      | Inr objs \<Rightarrow> Inr (weighted_average objs (map snd counts)))"
  using assms
  by (simp add: compute_expectation_def expectation_loop_closed py_truediv_def
      weighted_average_def split: sum.splits)

text \<open>
  Three shots of \<open>0101\<close> and one of \<open>0011\<close> on the notebook's graph: the objectives
  are \<open>-4\<close> and \<open>-2\<close>, their average \<open>-7/2\<close>.
\<close>

theorem compute_expectation_weighted_average_witness:
  "0 < sum_list (map snd [(''0101'', 3), (''0011'', 1 :: int)]) \<and>
   all_values (map (\<lambda>(bitstring, cnt). maxcut_obj (rev bitstring) square_graph)
     [(''0101'', 3), (''0011'', 1 :: int)]) = Inr [- 4, - 2] \<and>
   weighted_average [- 4, - 2] [3, 1] = - 7 / 2 \<and>
   compute_expectation [(''0101'', 3), (''0011'', 1)] square_graph = Inr (- 7 / 2)"
proof -
  let ?counts = "[(''0101'', 3), (''0011'', 1 :: int)]"
  have h: "0 < sum_list (map snd ?counts)" by simp
  have v: "all_values (map (\<lambda>(bitstring, cnt). maxcut_obj (rev bitstring) square_graph) ?counts) =
      Inr [- 4, - 2]"
    by (simp add: maxcut_obj_def square_graph_def py_index_def)
  have w: "weighted_average [- 4, - 2] [3, 1] = - 7 / 2"
    by (simp add: weighted_average_def)
  from compute_expectation_weighted_average [OF h, of square_graph]
  have "compute_expectation ?counts square_graph = Inr (- 7 / 2)"
    by (simp only: v sum.case) (simp add: w)
  with h v w show ?thesis by blast
qed

text \<open>
  Claim C5. The assembled Grover program is one pass: the input state (a Hadamard on
  each of the 3 input qubits, then X and H on the output qubit), then exactly 3 times
  the gates of \<open>oracle\<close> followed by the gates of \<open>phase_amplification\<close>, then one
  measurement of each input qubit into the classical bit of the same position, and
  nothing after the measurements. No call raises.
\<close>

theorem grover_program_structure:
  "grover =
     (None,
      [H (Input 0), H (Input 1), H (Input 2), X (Output 0), H (Output 0)] @
      concat (replicate 3
        (snd (oracle_fun (input_register 3) (output_register 1) (aux_register 4) 3
                [[1, 2, - 3], [- 1, - 2, - 3], [- 1, 2, 3]] []) @
         snd (phase_amplification (input_register 3) 3 []))) @
      [Measure (Input 0) 0, Measure (Input 1) 1, Measure (Input 2) 2]) \<and>
   input_state (input_register 3) (output_register 1) 3 [] =
     (None, [H (Input 0), H (Input 1), H (Input 2), X (Output 0), H (Output 0)]) \<and>
   fst (oracle_fun (input_register 3) (output_register 1) (aux_register 4) 3
          [[1, 2, - 3], [- 1, - 2, - 3], [- 1, 2, 3]] []) = None \<and>
   fst (phase_amplification (input_register 3) 3 []) = None"
  by code_simp

text \<open>
  Claim C6. \<open>get_psuccess\<close> never raises. With \<open>c01\<close> and \<open>c11\<close> the counts of the
  keys \<open>'01'\<close> and \<open>'11'\<close>, a missing key counting 0, it returns 0 when
  \<open>c01 + c11 = 0\<close> and \<open>c01 / (c01 + c11)\<close> otherwise.
\<close>

theorem get_psuccess_total:
  "get_psuccess counts =
     Inr (if count_of counts ''01'' + count_of counts ''11'' = 0 then 0
          else of_nat (count_of counts ''01'') /
               of_nat (count_of counts ''01'' + count_of counts ''11''))"
  by (rule get_psuccess_closed)

text \<open>
  Claim C7. \<open>input_state\<close>, \<open>oracle\<close>, \<open>phase_amplification\<close> and
  \<open>n_controlled_Z\<close> only append: after a call that returns normally, the circuit as it
  was before the call is a prefix of the circuit.
\<close>

theorem construction_only_appends:
  "(fst (input_state circuit_input circuit_output n c) = None \<longrightarrow>
      prefix c (snd (input_state circuit_input circuit_output n c))) \<and>
   (fst (oracle_fun circuit_input circuit_output aux n formula c) = None \<longrightarrow>
      prefix c (snd (oracle_fun circuit_input circuit_output aux n formula c))) \<and>
   (fst (phase_amplification circuit_input n c) = None \<longrightarrow>
      prefix c (snd (phase_amplification circuit_input n c))) \<and>
   (fst (n_controlled_Z controls target c) = None \<longrightarrow>
      prefix c (snd (n_controlled_Z controls target c)))"
  by (simp add: appends_prefix appends_input_state appends_oracle appends_phase_amplification
      appends_n_controlled_Z)

text \<open>Each of the four on a circuit that already holds a gate.\<close>

theorem construction_only_appends_witness:
  "fst (input_state (input_register 3) (output_register 1) 3 [X (Aux 0)]) = None \<and>
   prefix [X (Aux 0)] (snd (input_state (input_register 3) (output_register 1) 3 [X (Aux 0)])) \<and>
   fst (oracle_fun (input_register 3) (output_register 1) (aux_register 2) 3 [[1, - 2, 3]]
          [X (Aux 0)]) = None \<and>
   prefix [X (Aux 0)]
     (snd (oracle_fun (input_register 3) (output_register 1) (aux_register 2) 3 [[1, - 2, 3]]
          [X (Aux 0)])) \<and>
   fst (phase_amplification (input_register 3) 3 [X (Aux 0)]) = None \<and>
   prefix [X (Aux 0)] (snd (phase_amplification (input_register 3) 3 [X (Aux 0)])) \<and>
   fst (n_controlled_Z [Input 0, Input 1] (Input 2) [X (Aux 0)]) = None \<and>
   prefix [X (Aux 0)] (snd (n_controlled_Z [Input 0, Input 1] (Input 2) [X (Aux 0)]))"
proof -
  have a: "fst (input_state (input_register 3) (output_register 1) 3 [X (Aux 0)]) = None"
    by code_simp
  have b: "fst (oracle_fun (input_register 3) (output_register 1) (aux_register 2) 3
      [[1, - 2, 3]] [X (Aux 0)]) = None"
    by code_simp
  have c: "fst (phase_amplification (input_register 3) 3 [X (Aux 0)]) = None"
    by code_simp
  have d: "fst (n_controlled_Z [Input 0, Input 1] (Input 2) [X (Aux 0)]) = None"
    by code_simp
  note t = construction_only_appends [of "input_register 3" "output_register 1" 3 "[X (Aux 0)]"
      "aux_register 2" "[[1, - 2, 3]]" "[Input 0, Input 1]" "Input 2"]
  from t a b c d show ?thesis by blast
qed

text \<open>
  Claim C9. A literal is a positive or negative integer, as the notebook says where it
  gives the formula: 0 names no variable. For every formula that \<open>oracle\<close> accepts
  without raising, whatever the sizes of the three registers, on every basis state
  whose work qubits are all 0, the circuit appended returns every input qubit and every
  work qubit (the ancilla \<open>aux[num_clauses]\<close> too) to its value: the second pass over
  the clauses undoes the first, and no qubit but \<open>circuit_output[0]\<close> can change.
\<close>

theorem oracle_restores_inputs_and_aux:
  assumes "fst (oracle_fun (input_register n_in) (output_register n_out) (aux_register n_aux) n
             formula c) = None"
    and "\<forall>clause \<in> set formula. 0 \<notin> set clause"
    and "\<forall>k. \<not> s (Aux k)"
  shows "\<exists>gs s'.
     oracle_fun (input_register n_in) (output_register n_out) (aux_register n_aux) n
       formula c = (None, c @ gs) \<and>
     run gs s = Some s' \<and>
     (\<forall>i. s' (Input i) = s (Input i)) \<and>
     (\<forall>k. s' (Aux k) = s (Aux k)) \<and>
     (\<forall>q. q \<noteq> Output 0 \<longrightarrow> s' q = s q)"
proof -
  let ?p = "oracle_fun (input_register n_in) (output_register n_out) (aux_register n_aux) n formula"
  have ok: "ok ?p"
    using assms(1) ok_iff [OF appends_oracle, of _ _ _ _ _ c] by simp
  then have fits: "formula_fits n_in n_out n_aux formula"
    using assms(2) by (rule oracle_ok_fits)
  then have g: "gates ?p = oracle_gates formula"
    by (rule oracle_fits)
  have res: "?p c = (None, c @ oracle_gates formula)"
    using ok_result [OF appends_oracle ok] g by simp
  have nc: "length formula \<in> {1, 2, 3}"
    using fits by (simp add: formula_fits_def)
  have run: "run (oracle_gates formula) s =
      Some (s(Output 0 := (s (Output 0) \<noteq>
         dispatch_delta (length formula) (after_pass (length formula) 0 formula s))))"
    using nc assms(2) by (rule run_oracle_gates)
  let ?s' = "s(Output 0 := (s (Output 0) \<noteq>
         dispatch_delta (length formula) (after_pass (length formula) 0 formula s)))"
  have "\<forall>i. ?s' (Input i) = s (Input i)" and "\<forall>k. ?s' (Aux k) = s (Aux k)"
    and "\<forall>q. q \<noteq> Output 0 \<longrightarrow> ?s' q = s q"
    by simp_all
  with res run show ?thesis
    by (intro exI [of _ "oracle_gates formula"] exI [of _ ?s'] conjI)
qed

text \<open>The notebook's formula at the input \<open>x = 101\<close>.\<close>

theorem oracle_restores_inputs_and_aux_witness:
  "fst (oracle_fun (input_register 3) (output_register 1) (aux_register 4) 3
          [[1, 2, - 3], [- 1, - 2, - 3], [- 1, 2, 3]] []) = None \<and>
   (\<forall>k. \<not> basis_of [True, False, True] [False] [] (Aux k)) \<and>
   (\<exists>gs s'.
      oracle_fun (input_register 3) (output_register 1) (aux_register 4) 3
        [[1, 2, - 3], [- 1, - 2, - 3], [- 1, 2, 3]] [] = (None, gs) \<and>
      run gs (basis_of [True, False, True] [False] []) = Some s' \<and>
      s' (Input 0) \<and> \<not> s' (Input 1) \<and> s' (Input 2) \<and>
      \<not> s' (Aux 0) \<and> \<not> s' (Aux 1) \<and> \<not> s' (Aux 2) \<and> \<not> s' (Aux 3))"
proof -
  let ?F = "[[1, 2, - 3], [- 1, - 2, - 3], [- 1, 2, 3 :: int]]"
  let ?s = "basis_of [True, False, True] [False] []"
  have h1: "fst (oracle_fun (input_register 3) (output_register 1) (aux_register 4) 3 ?F []) = None"
    by code_simp
  have h2: "\<forall>clause \<in> set ?F. 0 \<notin> set clause" by simp
  have h3: "\<forall>k. \<not> ?s (Aux k)" by (simp add: basis_of_def)
  have i: "?s (Input 0)" "\<not> ?s (Input 1)" "?s (Input 2)" by (simp_all add: basis_of_def)
  from oracle_restores_inputs_and_aux [OF h1 h2 h3] obtain gs s' where
    r: "oracle_fun (input_register 3) (output_register 1) (aux_register 4) 3 ?F [] = (None, [] @ gs)"
      "run gs ?s = Some s'" "\<forall>i. s' (Input i) = ?s (Input i)" "\<forall>k. s' (Aux k) = ?s (Aux k)"
    by blast
  from r(3) i have "s' (Input 0)" "\<not> s' (Input 1)" "s' (Input 2)" by simp_all
  moreover from r(4) h3 have "\<not> s' (Aux 0)" "\<not> s' (Aux 1)" "\<not> s' (Aux 2)" "\<not> s' (Aux 3)"
    by simp_all
  ultimately show ?thesis using h1 h3 r(1,2) by auto
qed

text \<open>
  Claim C10 says that \<open>oracle\<close> raises ValueError exactly when the number of clauses is
  not 1, 2 or 3. With four clauses, the first of which names a fourth variable, and
  three input qubits, the loop over the clauses raises IndexError at
  \<open>circuit_input[3]\<close> before the clauses are counted.
\<close>

theorem oracle_value_error_counterexample:
  "length [[4, 2, 3], [1, 2, 3], [1, 2, 3], [1, 2, 3 :: int]] \<notin> {1, 2, 3} \<and>
   fst (oracle_fun (input_register 3) (output_register 1) (aux_register 5) 3
          [[4, 2, 3], [1, 2, 3], [1, 2, 3], [1, 2, 3]] []) = Some IndexError \<and>
   fst (oracle_fun (input_register 3) (output_register 1) (aux_register 5) 3
          [[4, 2, 3], [1, 2, 3], [1, 2, 3], [1, 2, 3]] []) \<noteq>
     Some (ValueError ''We only allow at most 3 clauses'')"
  by code_simp

text \<open>
  Claim C10, amended. When the first loop over the clauses completes (no index it
  evaluates is out of range), \<open>oracle\<close> raises
  \<open>ValueError('We only allow at most 3 clauses')\<close> exactly when the number of clauses
  is not 1, 2 or 3, and then the circuit is what that loop left: unchanged for the empty
  formula, and for more than 3 clauses extended by the gates of every clause, although
  the call fails.
\<close>

theorem oracle_value_error:
  assumes "fst (clause_loop circuit_input aux formula c) = None"
  shows "((fst (oracle_fun circuit_input circuit_output aux n formula c) =
            Some (ValueError ''We only allow at most 3 clauses'')) =
          (length formula \<notin> {1, 2, 3})) \<and>
         (length formula \<notin> {1, 2, 3} \<longrightarrow>
            snd (oracle_fun circuit_input circuit_output aux n formula c) =
            snd (clause_loop circuit_input aux formula c)) \<and>
         (formula = [] \<longrightarrow>
            oracle_fun circuit_input circuit_output aux n formula c =
            (Some (ValueError ''We only allow at most 3 clauses''), c)) \<and>
         (3 < length formula \<longrightarrow>
            (\<exists>gs. gs \<noteq> [] \<and> snd (oracle_fun circuit_input circuit_output aux n formula c) = c @ gs))"
proof -
  let ?loop = "clause_loop circuit_input aux formula"
  let ?disp = "clause_dispatch circuit_output aux (int (length formula))"
  let ?err = "ValueError ''We only allow at most 3 clauses''"
  have ok: "ok ?loop"
    using assms ok_iff [OF appends_clause_loop, of _ _ _ c] by simp
  have loop: "?loop c' = (None, c' @ gates ?loop)" for c'
    using appends_clause_loop ok by (rule ok_result)
  have orc: "oracle_fun circuit_input circuit_output aux n formula c =
      seq ?disp (seq ?loop skip) (c @ gates ?loop)"
    by (simp add: oracle_fun_def seq_def loop)
  show ?thesis
  proof (cases "length formula \<in> {1, 2, 3}")
    case True
    then have "int (length formula) \<in> {1, 2, 3}" by auto
    then have d: "fst (?disp (c @ gates ?loop)) \<in> {None, Some IndexError}"
      by (rule fst_clause_dispatch)
    obtain r c' where dc: "?disp (c @ gates ?loop) = (r, c')" by (cases "?disp (c @ gates ?loop)")
    with d have "r = None \<or> r = Some IndexError" by simp
    then have "fst (oracle_fun circuit_input circuit_output aux n formula c) \<noteq> Some ?err"
      by (auto simp: orc seq_def dc loop skip_def)
    with True show ?thesis by auto
  next
    case False
    then have "\<not> int (length formula) \<in> {1, 2, 3}" by auto
    then have "?disp = raise ?err"
      by (simp add: clause_dispatch_def)
    then have res: "oracle_fun circuit_input circuit_output aux n formula c =
        (Some ?err, c @ gates ?loop)"
      by (simp add: orc seq_def raise_def)
    have e: "formula = [] \<Longrightarrow> gates ?loop = []"
      by (simp add: clause_loop_def py_enumerate_def gates_skip)
    have ne: "3 < length formula \<Longrightarrow> gates ?loop \<noteq> []"
      using ok by (intro clause_loop_nonempty) auto
    from False res e ne show ?thesis
      by (auto simp: loop)
  qed
qed

text \<open>Four clauses over three input qubits and a work register of five.\<close>

theorem oracle_value_error_witness:
  "fst (clause_loop (input_register 3) (aux_register 5)
          [[1, 2, 3], [1, 2, 3], [1, 2, 3], [1, 2, 3]] []) = None \<and>
   fst (oracle_fun (input_register 3) (output_register 1) (aux_register 5) 3
          [[1, 2, 3], [1, 2, 3], [1, 2, 3], [1, 2, 3]] []) =
     Some (ValueError ''We only allow at most 3 clauses'') \<and>
   snd (oracle_fun (input_register 3) (output_register 1) (aux_register 5) 3
          [[1, 2, 3], [1, 2, 3], [1, 2, 3], [1, 2, 3]] []) =
   snd (clause_loop (input_register 3) (aux_register 5)
          [[1, 2, 3], [1, 2, 3], [1, 2, 3], [1, 2, 3]] []) \<and>
   snd (oracle_fun (input_register 3) (output_register 1) (aux_register 5) 3
          [[1, 2, 3], [1, 2, 3], [1, 2, 3], [1, 2, 3]] []) \<noteq> []"
proof -
  let ?F = "[[1, 2, 3], [1, 2, 3], [1, 2, 3], [1, 2, 3 :: int]]"
  have h: "fst (clause_loop (input_register 3) (aux_register 5) ?F []) = None"
    by code_simp
  have n: "length ?F \<notin> {1, 2, 3}" and m: "3 < length ?F" by simp_all
  from oracle_value_error [OF h, of "output_register 1" 3] n m h show ?thesis
    by auto
qed

end
